theory Spec2Isabelle
  imports Main "HOL-Library.AList"
begin

section \<open>Data model of the HIR that the pass reads\<close>

type_synonym IdentifierId = nat
type_synonym BlockId = nat
type_synonym InstructionId = nat
type_synonym ScopeId = nat

text \<open>A reference to a node of the path trie, an index into the trie's store (see below).\<close>

type_synonym NodeRef = nat

text \<open>A \<open>MutableRange\<close> has the fields \<open>start\<close> and \<open>end\<close>; \<open>end\<close> is a keyword of
  the theory language, so both carry the prefix \<open>range_\<close>.\<close>

record MutableRange =
  range_start :: InstructionId
  range_end :: InstructionId

record ReactiveScope =
  scope_id :: ScopeId
  scope_range :: MutableRange

text \<open>The field \<open>id\<close> of an identifier is \<open>ident_id\<close> here (\<open>id\<close> is the identity of HOL).\<close>

record Identifier =
  ident_id :: IdentifierId
  name :: "string option"
  mutableRange :: MutableRange
  scope :: "ReactiveScope option"

record DependencyPathEntry =
  property :: string
  optional :: bool

record ReactiveScopeDependency =
  "identifier" :: Identifier
  path :: "DependencyPathEntry list"

subsection \<open>The function being compiled\<close>

text \<open>A \<open>Place\<close> is read for its identifier only; a parameter is a \<open>Place\<close>
  (\<open>kind === 'Identifier'\<close>) or a spread pattern.\<close>

record Place =
  place_identifier :: Identifier

datatype Param = IdentifierParam Place | SpreadParam Place

datatype ReactFunctionType = Component | Hook | Other

text \<open>Instructions are told apart by the kind of their value; the pass reads the three
  kinds below and passes over every other kind.\<close>

datatype InstructionValue =
    PropertyLoad Place string
  | Destructure Place
  | ComputedLoad Place Place
  | OtherValue

record Instruction =
  instr_id :: InstructionId
  lvalue :: Place
  instr_value :: InstructionValue

datatype Terminal = ReturnTerminal | ThrowTerminal | ScopeTerminal ScopeId BlockId | OtherTerminal

record BasicBlock =
  block_id :: BlockId
  preds :: "BlockId list"
  instructions :: "Instruction list"
  terminal :: Terminal

text \<open>\<open>fn.body.blocks\<close> is a \<open>Map\<close> from block id to block that is iterated in insertion
  order: an association list. Of the environment only the configuration value
  \<open>fn.env.config.enablePropagateDepsInHIR\<close> is read.\<close>

record HIRFunction =
  fnType :: ReactFunctionType
  params :: "Param list"
  body_blocks :: "(BlockId \<times> BasicBlock) list"
  enablePropagateDepsInHIR :: string

text \<open>The per-block result: the block and its set of assumed non-null nodes.\<close>

record BlockInfo =
  block :: BasicBlock
  assumedNonNullObjects :: "NodeRef list"


section \<open>The path trie\<close>

text \<open>
  \<open>PropertyLoadNode\<close> objects are compared by reference (\<open>currNode !== original\<close>, membership
  in a \<open>Set\<close>), and a parent's child maps are mutated while other nodes point to it. The
  objects therefore live in an explicit store: \<open>heap\<close> is the list of all nodes allocated by
  one \<open>Tree\<close>, a reference is an index into it, and allocation appends. The field \<open>root\<close> is
  present on a \<open>RootNode\<close> only.
\<close>

record PropertyLoadNode =
  properties :: "string \<rightharpoonup> NodeRef"
  optionalProperties :: "string \<rightharpoonup> NodeRef"
  parent :: "NodeRef option"
  fullPath :: ReactiveScopeDependency
  hasOptional :: bool
  root :: "IdentifierId option"

record Tree =
  roots :: "IdentifierId \<rightharpoonup> NodeRef"
  heap :: "PropertyLoadNode list"

definition emptyTree :: Tree where
  "emptyTree = \<lparr>roots = Map.empty, heap = []\<rparr>"

definition getOrCreateIdentifier :: "Tree \<Rightarrow> Identifier \<Rightarrow> Tree \<times> NodeRef" where
  "getOrCreateIdentifier t ident =
     (case roots t (ident_id ident) of
        Some rootNode \<Rightarrow> (t, rootNode)
      | None \<Rightarrow>
          (let rootNode = \<lparr>properties = Map.empty, optionalProperties = Map.empty,
                            parent = None,
                            fullPath = \<lparr>identifier = ident, path = []\<rparr>,
                            hasOptional = False, root = Some (ident_id ident)\<rparr>;
               r = length (heap t)
           in (t\<lparr>roots := (roots t)(ident_id ident \<mapsto> r), heap := heap t @ [rootNode]\<rparr>, r)))"

definition getOrCreatePropertyEntry ::
    "Tree \<Rightarrow> NodeRef \<Rightarrow> DependencyPathEntry \<Rightarrow> Tree \<times> NodeRef" where
  "getOrCreatePropertyEntry t par entry =
     (let p = heap t ! par;
          m = (if optional entry then optionalProperties p else properties p)
      in case m (property entry) of
           Some child \<Rightarrow> (t, child)
         | None \<Rightarrow>
             (let child = \<lparr>properties = Map.empty, optionalProperties = Map.empty,
                            parent = Some par,
                            fullPath = \<lparr>identifier = identifier (fullPath p),
                                         path = path (fullPath p) @ [entry]\<rparr>,
                            hasOptional = (hasOptional p \<or> optional entry), root = None\<rparr>;
                  c = length (heap t);
                  p' = (if optional entry
                        then p\<lparr>optionalProperties := (optionalProperties p)(property entry \<mapsto> c)\<rparr>
                        else p\<lparr>properties := (properties p)(property entry \<mapsto> c)\<rparr>)
              in (t\<lparr>heap := (heap t)[par := p'] @ [child]\<rparr>, c)))"

text \<open>The loop \<open>for (i = 0; i < n.path.length - 1; i++)\<close> of \<open>getOrCreateProperty\<close>.\<close>

fun getOrCreateEntries :: "Tree \<Rightarrow> NodeRef \<Rightarrow> DependencyPathEntry list \<Rightarrow> Tree \<times> NodeRef" where
  "getOrCreateEntries t currNode [] = (t, currNode)"
| "getOrCreateEntries t currNode (e # es) =
     (case getOrCreatePropertyEntry t currNode e of
        (t', child) \<Rightarrow> getOrCreateEntries t' child es)"

definition getOrCreateProperty :: "Tree \<Rightarrow> ReactiveScopeDependency \<Rightarrow> Tree \<times> NodeRef" where
  "getOrCreateProperty t n =
     (case getOrCreateIdentifier t (identifier n) of
        (t1, currNode) \<Rightarrow>
          if length (path n) = 0 then (t1, currNode)
          else (case getOrCreateEntries t1 currNode (butlast (path n)) of
                  (t2, currNode2) \<Rightarrow> getOrCreatePropertyEntry t2 currNode2 (last (path n))))"

subsection \<open>Sets of nodes\<close>

text \<open>
  A JavaScript \<open>Set\<close> iterates in insertion order, and the pass iterates its sets, so a set
  of nodes is a list without duplicates in insertion order: \<open>add\<close> appends an absent
  element, \<open>delete\<close> removes it, \<open>has\<close> is membership. A set that is only ever asked
  \<open>has\<close> (the known-immutable identifiers) is a HOL set.
\<close>

definition Set_add :: "'a list \<Rightarrow> 'a \<Rightarrow> 'a list" where
  "Set_add xs x = (if x \<in> set xs then xs else xs @ [x])"

definition Set_delete :: "'a list \<Rightarrow> 'a \<Rightarrow> 'a list" where
  "Set_delete xs x = removeAll x xs"

text \<open>Modelled from the spec: \<open>Set_union\<close> of \<open>Utils/utils\<close>, which the pass imports; the
  "union" of a block's own fact set with what its neighbours give. The members of the
  first set keep their places and the new members of the second follow.\<close>

definition Set_union :: "'a list \<Rightarrow> 'a list \<Rightarrow> 'a list" where
  "Set_union a b = foldl Set_add a b"

text \<open>Modelled from the spec: \<open>Set_intersect\<close> of \<open>Utils/utils\<close>; the "intersection of the
  fact sets of all neighbors whose state is done". The intersection of no sets is the
  empty set: a block without settled neighbours keeps exactly its own facts ("not
  required to be safe in bb0 itself beyond its own local fact").\<close>

definition Set_intersect :: "'a list list \<Rightarrow> 'a list" where
  "Set_intersect sets =
     (case sets of [] \<Rightarrow> [] | first # others \<Rightarrow> filter (\<lambda>e. \<forall>s \<in> set others. e \<in> set s) first)"

text \<open>Modelled from the spec: \<open>Set_equal\<close> of \<open>Utils/utils\<close>; the comparison of the stored
  set with its value before the visit "by node identity/content, not just size".\<close>

definition Set_equal :: "'a list \<Rightarrow> 'a list \<Rightarrow> bool" where
  "Set_equal a b = (length a = length b \<and> (\<forall>item \<in> set a. item \<in> set b))"

text \<open>Modelled from the spec: \<open>Set_filter\<close> of \<open>Utils/utils\<close>; it selects "every member whose
  path contains at least one optional segment".\<close>

definition Set_filter :: "'a list \<Rightarrow> ('a \<Rightarrow> bool) \<Rightarrow> 'a list" where
  "Set_filter source f = filter f source"

section \<open>The local fact extractor\<close>

text \<open>Modelled from the spec: \<open>inRange\<close> of \<open>ReactiveScopes/InferReactiveScopeVariables\<close>; a range
  is a "half-open instruction interval".\<close>

definition inRange :: "InstructionId \<Rightarrow> MutableRange \<Rightarrow> bool" where
  "inRange instrId r = (range_start r \<le> instrId \<and> instrId < range_end r)"

text \<open>\<open>isMutableAtInstr\<close> is the constant of that name in \<open>pushPropertyLoadNode\<close>;
  \<open>object.scope != null\<close> is the case \<open>Some\<close>. A node is an index, so \<open>pushPropertyLoadNode\<close>
  takes the trie to read \<open>node.fullPath\<close> from.\<close>

definition isMutableAtInstr :: "Identifier \<Rightarrow> InstructionId \<Rightarrow> bool" where
  "isMutableAtInstr object instrId =
     (range_end (mutableRange object) > range_start (mutableRange object) + 1 \<and>
      (case scope object of None \<Rightarrow> False | Some sc \<Rightarrow> inRange instrId (scope_range sc)))"

definition pushPropertyLoadNode ::
    "Tree \<Rightarrow> NodeRef \<Rightarrow> InstructionId \<Rightarrow> IdentifierId set \<Rightarrow> NodeRef list \<Rightarrow> NodeRef list" where
  "pushPropertyLoadNode t node instrId knownImmutableIdentifiers result =
     (let object = identifier (fullPath (heap t ! node))
      in if \<not> isMutableAtInstr object instrId \<or>
            ident_id (identifier (fullPath (heap t ! node))) \<in> knownImmutableIdentifiers
         then Set_add result node else result)"

text \<open>The two sets that \<open>collectNonNullsInBlocks\<close> builds before its loop over the blocks:
  \<open>knownImmutableIdentifiers\<close>, the ids of the parameters of kind \<open>Identifier\<close> of a
  Component or a Hook; and \<open>knownNonNullIdentifiers\<close>, which under the configuration value
  \<open>'enabled_with_optimizations'\<close> holds the root node of the first parameter of a
  Component when that parameter is of kind \<open>Identifier\<close>.\<close>

definition knownImmutableIdentifiersOf :: "HIRFunction \<Rightarrow> IdentifierId set" where
  "knownImmutableIdentifiersOf fn =
     (if fnType fn = Component \<or> fnType fn = Hook
      then foldl (\<lambda>s p. case p of IdentifierParam pl \<Rightarrow> insert (ident_id (place_identifier pl)) s
                                  | SpreadParam _ \<Rightarrow> s) {} (params fn)
      else {})"

definition knownNonNullIdentifiersOf :: "HIRFunction \<Rightarrow> Tree \<Rightarrow> Tree \<times> NodeRef list" where
  "knownNonNullIdentifiersOf fn tree =
     (if enablePropagateDepsInHIR fn = ''enabled_with_optimizations'' \<and> fnType fn = Component
      then (case params fn of
              IdentifierParam p # _ \<Rightarrow>
                (case getOrCreateIdentifier tree (place_identifier p) of
                   (tree', r) \<Rightarrow> (tree', Set_add [] r))
            | _ \<Rightarrow> (tree, []))
      else (tree, []))"

text \<open>The body of the loop over \<open>block.instructions\<close>; the trie and the block's fact set are
  the state.\<close>

definition collectInstruction ::
    "HIRFunction \<Rightarrow> (IdentifierId \<rightharpoonup> ReactiveScopeDependency) \<Rightarrow> IdentifierId set
       \<Rightarrow> Tree \<times> NodeRef list \<Rightarrow> Instruction \<Rightarrow> Tree \<times> NodeRef list" where
  "collectInstruction fn temporaries knownImmutable acc instr =
     (case acc of (tree, assumedNonNull) \<Rightarrow>
        (case instr_value instr of
           PropertyLoad object p \<Rightarrow>
             (let source = (case temporaries (ident_id (place_identifier object)) of
                              Some d \<Rightarrow> d
                            | None \<Rightarrow> \<lparr>identifier = place_identifier object, path = []\<rparr>)
              in case getOrCreateProperty tree source of
                   (tree', propertyNode) \<Rightarrow>
                     (tree', pushPropertyLoadNode tree' propertyNode (instr_id instr)
                               knownImmutable assumedNonNull))
         | Destructure v \<Rightarrow>
             if enablePropagateDepsInHIR fn = ''enabled_with_optimizations''
             then (case temporaries (ident_id (place_identifier v)) of
                     Some sourceNode \<Rightarrow>
                       (case getOrCreateProperty tree sourceNode of
                          (tree', n) \<Rightarrow>
                            (tree', pushPropertyLoadNode tree' n (instr_id instr)
                                      knownImmutable assumedNonNull))
                   | None \<Rightarrow> (tree, assumedNonNull))
             else (tree, assumedNonNull)
         | ComputedLoad object p \<Rightarrow>
             if enablePropagateDepsInHIR fn = ''enabled_with_optimizations''
             then (case temporaries (ident_id (place_identifier object)) of
                     Some sourceNode \<Rightarrow>
                       (case getOrCreateProperty tree sourceNode of
                          (tree', n) \<Rightarrow>
                            (tree', pushPropertyLoadNode tree' n (instr_id instr)
                                      knownImmutable assumedNonNull))
                   | None \<Rightarrow> (tree, assumedNonNull))
             else (tree, assumedNonNull)
         | OtherValue \<Rightarrow> (tree, assumedNonNull)))"

text \<open>The body of the loop over \<open>fn.body.blocks\<close>: the block's set starts as a copy of the
  known non-null identifiers; a block of the optional-continuation map gets the node of
  its dependency and is not scanned (\<open>continue\<close>); the table entry under \<open>block.id\<close> holds
  the set, which is filled after \<open>nodes.set\<close> in the source.\<close>

definition collectBlock ::
    "HIRFunction \<Rightarrow> (IdentifierId \<rightharpoonup> ReactiveScopeDependency)
       \<Rightarrow> (BlockId \<rightharpoonup> ReactiveScopeDependency) \<Rightarrow> IdentifierId set \<Rightarrow> NodeRef list
       \<Rightarrow> (BlockId \<times> BlockInfo) list \<times> Tree \<Rightarrow> BlockId \<times> BasicBlock
       \<Rightarrow> (BlockId \<times> BlockInfo) list \<times> Tree" where
  "collectBlock fn temporaries optionals knownImmutable knownNonNull acc entry =
     (case acc of (nodes, tree) \<Rightarrow>
      case entry of (key, b) \<Rightarrow>
        (case optionals (block_id b) of
           Some maybeOptionalChain \<Rightarrow>
             (case getOrCreateProperty tree maybeOptionalChain of
                (tree', n) \<Rightarrow>
                  (AList.update (block_id b)
                     \<lparr>block = b, assumedNonNullObjects = Set_add knownNonNull n\<rparr> nodes,
                   tree'))
         | None \<Rightarrow>
             (case foldl (collectInstruction fn temporaries knownImmutable)
                     (tree, knownNonNull) (instructions b) of
                (tree', assumedNonNull) \<Rightarrow>
                  (AList.update (block_id b)
                     \<lparr>block = b, assumedNonNullObjects = assumedNonNull\<rparr> nodes,
                   tree'))))"

definition collectNonNullsInBlocks ::
    "HIRFunction \<Rightarrow> (IdentifierId \<rightharpoonup> ReactiveScopeDependency)
       \<Rightarrow> (BlockId \<rightharpoonup> ReactiveScopeDependency) \<Rightarrow> Tree
       \<Rightarrow> (BlockId \<times> BlockInfo) list \<times> Tree" where
  "collectNonNullsInBlocks fn temporaries optionals tree =
     (case knownNonNullIdentifiersOf fn tree of
        (tree0, knownNonNull) \<Rightarrow>
          foldl (collectBlock fn temporaries optionals (knownImmutableIdentifiersOf fn) knownNonNull)
                ([], tree0) (body_blocks fn))"

section \<open>The optional-chain canonicalizer\<close>

text \<open>\<open>rewalk\<close> is the loop over \<open>origPath\<close> in \<open>reduceMaybeOptionalChains\<close>, from the node
  \<open>currNode\<close> on; it may allocate nodes, so it returns the trie as well.\<close>

fun rewalk :: "Tree \<Rightarrow> NodeRef list \<Rightarrow> NodeRef \<Rightarrow> DependencyPathEntry list \<Rightarrow> Tree \<times> NodeRef" where
  "rewalk t knownNonNulls currNode [] = (t, currNode)"
| "rewalk t knownNonNulls currNode (entry # rest) =
     (let nextEntry = (if optional entry \<and> currNode \<in> set knownNonNulls
                       then \<lparr>property = property entry, optional = False\<rparr> else entry)
      in case getOrCreatePropertyEntry t currNode nextEntry of
           (t', child) \<Rightarrow> rewalk t' knownNonNulls child rest)"

text \<open>
  The loop \<open>for (const original of optionalChainNodes)\<close> deletes from and adds to the set
  it iterates. A \<open>Set\<close> iterator goes through the entries in insertion order, skips the
  entries deleted before it reaches them, and reaches the entries added while it runs.
  The state of the loop therefore splits \<open>optionalChainNodes\<close> into \<open>rs_visited\<close>, the
  members the iterator has passed, and \<open>rs_pending\<close>, the members it still yields, in
  order; the set is \<open>rs_visited @ rs_pending\<close>. \<open>reduceBody original rest\<close> is one run of the
  loop body for the head \<open>original\<close> of the pending members: deleting \<open>original\<close> leaves
  \<open>rest\<close> pending, and adding \<open>currNode\<close> appends it to the pending members unless the set
  already has it. The other fields are the variables of the function: \<open>tree\<close>, \<open>nodes\<close>,
  \<open>knownNonNulls\<close> and \<open>changed\<close>.
\<close>

record ReduceState =
  rs_tree :: Tree
  rs_visited :: "NodeRef list"
  rs_pending :: "NodeRef list"
  rs_nodes :: "NodeRef list"
  rs_knownNonNulls :: "NodeRef list"
  rs_changed :: bool

definition reduceBody :: "NodeRef \<Rightarrow> NodeRef list \<Rightarrow> ReduceState \<Rightarrow> ReduceState" where
  "reduceBody original rest s =
     (let d = fullPath (heap (rs_tree s) ! original) in
      case getOrCreateIdentifier (rs_tree s) (identifier d) of (t1, r) \<Rightarrow>
      case rewalk t1 (rs_knownNonNulls s) r (path d) of (t2, currNode) \<Rightarrow>
        if currNode \<noteq> original
        then s\<lparr>rs_tree := t2, rs_changed := True,
               rs_pending := (if currNode \<in> set (rs_visited s) \<union> set rest
                              then rest else rest @ [currNode]),
               rs_nodes := Set_add (Set_delete (rs_nodes s) original) currNode,
               rs_knownNonNulls := Set_add (rs_knownNonNulls s) currNode\<rparr>
        else s\<lparr>rs_tree := t2, rs_visited := rs_visited s @ [original], rs_pending := rest\<rparr>)"

text \<open>Neither loop has a bound in the source, so both are partial functions: \<open>None\<close> is a
  run that does not return. \<open>reduceFor\<close> is the \<open>for\<close> loop, \<open>reduceDoWhile\<close> the \<open>do\<close> loop
  around it, which starts each pass with \<open>changed = false\<close> and the iterator at the first
  member.\<close>

partial_function (option) reduceFor :: "ReduceState \<Rightarrow> ReduceState option" where
  "reduceFor s =
     (case rs_pending s of
        [] \<Rightarrow> Some s
      | original # rest \<Rightarrow> reduceFor (reduceBody original rest s))"

partial_function (option) reduceDoWhile ::
    "Tree \<Rightarrow> NodeRef list \<Rightarrow> NodeRef list \<Rightarrow> NodeRef list \<Rightarrow> (NodeRef list \<times> Tree) option" where
  "reduceDoWhile t optionalChainNodes nodes knownNonNulls =
        (case reduceFor \<lparr>rs_tree = t, rs_visited = [], rs_pending = optionalChainNodes,
                         rs_nodes = nodes, rs_knownNonNulls = knownNonNulls,
                         rs_changed = False\<rparr> of
           None \<Rightarrow> None
         | Some s \<Rightarrow>
             if rs_changed s
             then reduceDoWhile (rs_tree s) (rs_visited s) (rs_nodes s) (rs_knownNonNulls s)
             else Some (rs_nodes s, rs_tree s))"

definition reduceMaybeOptionalChains :: "NodeRef list \<Rightarrow> Tree \<Rightarrow> (NodeRef list \<times> Tree) option" where
  "reduceMaybeOptionalChains nodes t =
     (let optionalChainNodes = Set_filter nodes (\<lambda>n. hasOptional (heap t ! n))
      in if length optionalChainNodes = 0 then Some (nodes, t)
         else reduceDoWhile t optionalChainNodes nodes nodes)"


declare reduceFor.simps [code]
declare reduceDoWhile.simps [code]

section \<open>The fixed-point propagator\<close>

datatype Direction = Forward | Backward

datatype TraversalStatus = Active | Done

datatype SourceLocation = GeneratedSource

datatype InvariantReason =
    BadNode BlockId Direction
  | UnexpectedNull
  | FixpointDidNotTerminate

datatype CompilerError = Invariant InvariantReason SourceLocation

text \<open>Modelled from the spec: \<open>CompilerError.invariant\<close> of \<open>../CompilerError\<close>, "a fatal
  internal-invariant error (carrying a reason and source location)" that is thrown when
  the condition is false; a thrown error is the \<open>Inl\<close> of a result. The reason
  of an invariant error is kept as a value: \<open>BadNode n d\<close> is the message
  "Bad node n, kind: d", \<open>UnexpectedNull\<close> is "Unexpected null", and
  \<open>FixpointDidNotTerminate\<close> is "[CollectHoistablePropertyLoads] fixed point iteration did
  not terminate after 100 loops". The location is always \<open>GeneratedSource\<close>.\<close>

definition assertNonNull :: "'a option \<Rightarrow> CompilerError + 'a" where
  "assertNonNull v = (case v of None \<Rightarrow> Inl (Invariant UnexpectedNull GeneratedSource)
                             | Some x \<Rightarrow> Inr x)"

text \<open>
  \<open>recursivelyPropagateNonNull\<close> is a closure over \<open>nodes\<close>, \<open>tree\<close> and \<open>blockSuccessors\<close> and
  mutates the first two and \<open>traversalState\<close>; the three mutated objects are the state
  \<open>PState\<close> that every call takes and returns, and \<open>blockSuccessors\<close> is a parameter. The
  fact table is an association list in insertion order. A result is \<open>None\<close> when the call
  does not return (the canonicalizer is the only loop without a bound), \<open>Some (Inl e)\<close>
  when it throws \<open>e\<close>, and \<open>Some (Inr r)\<close> when it returns \<open>r\<close>.
\<close>

record PState =
  traversalState :: "BlockId \<rightharpoonup> TraversalStatus"
  ps_nodes :: "(BlockId \<times> BlockInfo) list"
  ps_tree :: Tree

text \<open>Modelled from the spec: \<open>getOrInsertDefault\<close> of \<open>Utils/utils\<close>, by which the first
  loop of \<open>propagateNonNull\<close> builds the "successor edges": it returns the set stored under
  the key and stores a new empty one first when the key is absent, so that every block
  is added to the successor set of each of its predecessors
  (\<open>getOrInsertDefault(blockSuccessors, pred, new Set()).add(blockId)\<close>).
  The set \<open>terminalPreds\<close> that the same loop fills is never read and is left out.\<close>

definition blockSuccessorsOf :: "(BlockId \<times> BasicBlock) list \<Rightarrow> (BlockId \<times> BlockId list) list" where
  "blockSuccessorsOf blocks =
     foldl (\<lambda>m (blockId, b).
              foldl (\<lambda>m pred. AList.update pred
                       (Set_add (case map_of m pred of None \<Rightarrow> [] | Some s \<Rightarrow> s) blockId) m)
                    m (preds b))
           [] blocks"

definition neighborsOf ::
    "(BlockId \<times> BlockId list) list \<Rightarrow> Direction \<Rightarrow> BlockId \<Rightarrow> BlockInfo \<Rightarrow> BlockId list" where
  "neighborsOf blockSuccessors direction nodeId node =
     (if direction = Backward
      then (case map_of blockSuccessors nodeId of None \<Rightarrow> [] | Some s \<Rightarrow> s)
      else preds (block node))"

text \<open>\<open>assertAll\<close> is the \<open>map\<close> over the settled neighbours: the first \<open>assertNonNull\<close>
  that throws ends it. \<open>mergeVisited\<close> is the part of \<open>recursivelyPropagateNonNull\<close> after
  the loop over the neighbours.\<close>

fun assertAll :: "(CompilerError + 'a) list \<Rightarrow> CompilerError + 'a list" where
  "assertAll [] = Inr []"
| "assertAll (x # xs) =
     (case x of Inl e \<Rightarrow> Inl e
      | Inr v \<Rightarrow> (case assertAll xs of Inl e \<Rightarrow> Inl e | Inr vs \<Rightarrow> Inr (v # vs)))"

definition mergeVisited ::
    "BlockId \<Rightarrow> BlockId list \<Rightarrow> bool \<Rightarrow> PState \<Rightarrow> (CompilerError + bool \<times> PState) option" where
  "mergeVisited nodeId neighbors changed st =
     (case assertAll (map (\<lambda>n. map_sum id assumedNonNullObjects
                                   (assertNonNull (map_of (ps_nodes st) n)))
                          (filter (\<lambda>n. traversalState st n = Some Done) neighbors)) of
        Inl e \<Rightarrow> Some (Inl e)
      | Inr sets \<Rightarrow>
          (let neighborAccesses = Set_intersect sets in
           case assertNonNull (map_of (ps_nodes st) nodeId) of
             Inl e \<Rightarrow> Some (Inl e)
           | Inr info \<Rightarrow>
               (let prevObjects = assumedNonNullObjects info;
                    mergedObjects = Set_union prevObjects neighborAccesses
                in case reduceMaybeOptionalChains mergedObjects (ps_tree st) of
                     None \<Rightarrow> None
                   | Some (mergedObjects', tree') \<Rightarrow>
                       Some (Inr (changed \<or> \<not> Set_equal prevObjects mergedObjects',
                                  st\<lparr>ps_nodes := AList.map_entry nodeId
                                          (\<lambda>i. i\<lparr>assumedNonNullObjects := mergedObjects'\<rparr>)
                                          (ps_nodes st),
                                     ps_tree := tree',
                                     traversalState := (traversalState st)(nodeId \<mapsto> Done)\<rparr>)))))"

function recursivelyPropagateNonNull ::
    "(BlockId \<times> BlockId list) list \<Rightarrow> Direction \<Rightarrow> BlockId \<Rightarrow> PState
       \<Rightarrow> (CompilerError + bool \<times> PState) option"
  and propagateNeighbors ::
    "(BlockId \<times> BlockId list) list \<Rightarrow> Direction \<Rightarrow> BlockId list \<Rightarrow> bool \<Rightarrow> PState
       \<Rightarrow> (CompilerError + bool \<times> PState) option"
where
  "recursivelyPropagateNonNull blockSuccessors direction nodeId st =
     (if traversalState st nodeId \<noteq> None then Some (Inr (False, st))
      else (case map_of (ps_nodes st) nodeId of
              None \<Rightarrow> Some (Inl (Invariant (BadNode nodeId direction) GeneratedSource))
            | Some node \<Rightarrow>
                (case propagateNeighbors blockSuccessors direction
                        (neighborsOf blockSuccessors direction nodeId node) False
                        (st\<lparr>traversalState := (traversalState st)(nodeId \<mapsto> Active)\<rparr>) of
                   None \<Rightarrow> None
                 | Some (Inl e) \<Rightarrow> Some (Inl e)
                 | Some (Inr (changed, st')) \<Rightarrow>
                     mergeVisited nodeId (neighborsOf blockSuccessors direction nodeId node)
                       changed st')))"
| "propagateNeighbors blockSuccessors direction [] changed st = Some (Inr (changed, st))"
| "propagateNeighbors blockSuccessors direction (pred # rest) changed st =
     (if traversalState st pred = None
      then (case recursivelyPropagateNonNull blockSuccessors direction pred st of
              None \<Rightarrow> None
            | Some (Inl e) \<Rightarrow> Some (Inl e)
            | Some (Inr (neighborChanged, st')) \<Rightarrow>
                propagateNeighbors blockSuccessors direction rest (changed \<or> neighborChanged) st')
      else propagateNeighbors blockSuccessors direction rest changed st)"
  by pat_completeness auto

text \<open>The recursion ends because every visit that recurs gives a traversal state to a
  block of the table that had none, and no call takes one away: \<open>unvisited\<close>, the number
  of table entries without traversal state, never grows.\<close>

definition unvisited :: "PState \<Rightarrow> nat" where
  "unvisited st = length (filter (\<lambda>k. traversalState st k = None) (map fst (ps_nodes st)))"

text \<open>\<open>grows st st'\<close>: the fact table has the same blocks under the same keys, and every
  block with a traversal state still has one.\<close>

definition grows :: "PState \<Rightarrow> PState \<Rightarrow> bool" where
  "grows st st' \<longleftrightarrow>
     map fst (ps_nodes st') = map fst (ps_nodes st) \<and>
     (\<forall>k. traversalState st k \<noteq> None \<longrightarrow> traversalState st' k \<noteq> None)"

lemma grows_refl: "grows st st"
  by (simp add: grows_def)

lemma grows_trans: "grows st st' \<Longrightarrow> grows st' st'' \<Longrightarrow> grows st st''"
  by (simp add: grows_def)

lemma grows_unvisited: "grows st st' \<Longrightarrow> unvisited st' \<le> unvisited st"
proof -
  assume g: "grows st st'"
  have "length (filter (\<lambda>k. traversalState st' k = None) ks)
          \<le> length (filter (\<lambda>k. traversalState st k = None) ks)" for ks
    using g by (induction ks) (auto simp: grows_def)
  from this[of "map fst (ps_nodes st)"] g show ?thesis
    unfolding unvisited_def grows_def by presburger
qed

lemma map_fst_map_entry: "map fst (AList.map_entry k f al) = map fst al"
  by (induction al) auto

lemma mergeVisited_grows:
  "mergeVisited nodeId neighbors changed st = Some (Inr (c, st')) \<Longrightarrow> grows st st'"
  by (auto simp: mergeVisited_def grows_def Let_def map_fst_map_entry
           split: sum.splits option.splits prod.splits)

lemma grows_activate:
  "grows st (st\<lparr>traversalState := (traversalState st)(nodeId \<mapsto> Active)\<rparr>)"
  by (simp add: grows_def)

lemma unvisited_activate:
  assumes "traversalState st nodeId = None" "map_of (ps_nodes st) nodeId = Some node"
  shows "unvisited (st\<lparr>traversalState := (traversalState st)(nodeId \<mapsto> Active)\<rparr>) < unvisited st"
proof -
  have in_keys: "nodeId \<in> set (map fst (ps_nodes st))"
    using assms(2) by (metis map_of_SomeD set_zip_leftD zip_map_fst_snd)
  have "length (filter (\<lambda>k. ((traversalState st)(nodeId \<mapsto> Active)) k = None) ks)
          < length (filter (\<lambda>k. traversalState st k = None) ks)"
    if "nodeId \<in> set ks" for ks
    using that assms(1)
  proof (induction ks)
    case Nil
    then show ?case by simp
  next
    case (Cons k ks)
    have le: "length (filter (\<lambda>k. ((traversalState st)(nodeId \<mapsto> Active)) k = None) ks)
          \<le> length (filter (\<lambda>k. traversalState st k = None) ks)"
      by (induction ks) auto
    show ?case
    proof (cases "k = nodeId")
      case True
      with le Cons.prems(2) show ?thesis by simp
    next
      case False
      with Cons show ?thesis by auto
    qed
  qed
  from this[OF in_keys] show ?thesis by (simp add: unvisited_def)
qed

lemma propagate_grows_partial:
  "recursivelyPropagateNonNull_propagateNeighbors_dom (Inl (bs, dir, nodeId, st)) \<Longrightarrow>
     recursivelyPropagateNonNull bs dir nodeId st = Some (Inr (c, st')) \<Longrightarrow> grows st st'"
  "recursivelyPropagateNonNull_propagateNeighbors_dom (Inr (bs, dir, ns, ch, st)) \<Longrightarrow>
     propagateNeighbors bs dir ns ch st = Some (Inr (c, st')) \<Longrightarrow> grows st st'"
proof (induction bs dir nodeId st and bs dir ns ch st arbitrary: c st' and c st'
    rule: recursivelyPropagateNonNull_propagateNeighbors.pinduct)
  case (1 bs dir nodeId st)
  show ?case
  proof (cases "traversalState st nodeId \<noteq> None")
    case True
    with 1(1,3) show ?thesis by (simp add: recursivelyPropagateNonNull.psimps grows_refl)
  next
    case False
    with 1(1,3) obtain node ch st2 where
      n: "map_of (ps_nodes st) nodeId = Some node"
      and p: "propagateNeighbors bs dir (neighborsOf bs dir nodeId node) False
                (st\<lparr>traversalState := (traversalState st)(nodeId \<mapsto> Active)\<rparr>)
              = Some (Inr (ch, st2))"
      and m: "mergeVisited nodeId (neighborsOf bs dir nodeId node) ch st2 = Some (Inr (c, st'))"
      by (auto simp: recursivelyPropagateNonNull.psimps split: option.splits sum.splits)
    from 1(2)[OF False n p] mergeVisited_grows[OF m] grows_activate[of st nodeId]
    show ?thesis by (blast intro: grows_trans)
  qed
next
  case (2 bs dir ch st)
  then show ?case by (simp add: propagateNeighbors.psimps grows_refl)
next
  case (3 bs dir pred rest ch st)
  show ?case
  proof (cases "traversalState st pred = None")
    case True
    with 3(1,5) obtain nc st1 where
      v: "recursivelyPropagateNonNull bs dir pred st = Some (Inr (nc, st1))"
      and r: "propagateNeighbors bs dir rest (ch \<or> nc) st1 = Some (Inr (c, st'))"
      by (auto simp: propagateNeighbors.psimps split: option.splits sum.splits)
    from 3(2)[OF True v] 3(3)[OF True v refl refl r] show ?thesis by (rule grows_trans)
  next
    case False
    with 3(1,5) have "propagateNeighbors bs dir rest ch st = Some (Inr (c, st'))"
      by (simp add: propagateNeighbors.psimps)
    from 3(4)[OF False this] show ?thesis .
  qed
qed

termination recursivelyPropagateNonNull
proof (relation "measures
    [\<lambda>x. case x of Inl (bs, dir, n, st) \<Rightarrow> unvisited st | Inr (bs, dir, ns, ch, st) \<Rightarrow> unvisited st,
     \<lambda>x. case x of Inl _ \<Rightarrow> 0 | Inr (bs, dir, ns, ch, st) \<Rightarrow> Suc (length ns)]", goal_cases)
  case 1
  then show ?case by simp
next
  case (2 bs dir nodeId st node)
  then show ?case using unvisited_activate[of st nodeId node] by simp
next
  case (3 bs dir pred rest ch st)
  then show ?case by simp
next
  case (4 bs dir pred rest ch st x2 b x y)
  then have "grows st y" using propagate_grows_partial(1)[of bs dir pred st x y] by simp
  from grows_unvisited[OF this] show ?case by auto
next
  case (5 bs dir pred rest ch st)
  then show ?case by simp
qed


declare recursivelyPropagateNonNull.simps [simp del]

text \<open>One sweep: the loop over the block ids that calls \<open>recursivelyPropagateNonNull\<close> and
  accumulates \<open>changed\<close>.\<close>

fun sweep ::
    "(BlockId \<times> BlockId list) list \<Rightarrow> Direction \<Rightarrow> BlockId list \<Rightarrow> bool \<Rightarrow> PState
       \<Rightarrow> (CompilerError + bool \<times> PState) option" where
  "sweep blockSuccessors direction [] changed st = Some (Inr (changed, st))"
| "sweep blockSuccessors direction (blockId # rest) changed st =
     (case recursivelyPropagateNonNull blockSuccessors direction blockId st of
        None \<Rightarrow> None
      | Some (Inl e) \<Rightarrow> Some (Inl e)
      | Some (Inr (c, st')) \<Rightarrow> sweep blockSuccessors direction rest (changed \<or> c) st')"

text \<open>The body of the \<open>do\<close> loop after the check of the iteration cap: a forward sweep in
  block order, \<open>traversalState.clear()\<close>, a backward sweep in reverse order, and
  \<open>traversalState.clear()\<close> again.\<close>

definition iteration ::
    "(BlockId \<times> BlockId list) list \<Rightarrow> BlockId list \<Rightarrow> PState
       \<Rightarrow> (CompilerError + bool \<times> PState) option" where
  "iteration blockSuccessors blockIds st =
     (case sweep blockSuccessors Forward blockIds False st of
        None \<Rightarrow> None
      | Some (Inl e) \<Rightarrow> Some (Inl e)
      | Some (Inr (changed, st1)) \<Rightarrow>
          (case sweep blockSuccessors Backward (rev blockIds) changed
                  (st1\<lparr>traversalState := Map.empty\<rparr>) of
             None \<Rightarrow> None
           | Some (Inl e) \<Rightarrow> Some (Inl e)
           | Some (Inr (changed', st2)) \<Rightarrow>
               Some (Inr (changed', st2\<lparr>traversalState := Map.empty\<rparr>))))"

function fixpointLoop ::
    "(BlockId \<times> BlockId list) list \<Rightarrow> BlockId list \<Rightarrow> nat \<Rightarrow> PState
       \<Rightarrow> (CompilerError + PState) option" where
  "fixpointLoop blockSuccessors blockIds i st =
     (if i < 100
      then (case iteration blockSuccessors blockIds st of
              None \<Rightarrow> None
            | Some (Inl e) \<Rightarrow> Some (Inl e)
            | Some (Inr (changed, st')) \<Rightarrow>
                if changed then fixpointLoop blockSuccessors blockIds (Suc i) st'
                else Some (Inr st'))
      else Some (Inl (Invariant FixpointDidNotTerminate GeneratedSource)))"
  by pat_completeness auto
termination
  by (relation "measure (\<lambda>(bs, ids, i, st). 100 - i)") auto

declare fixpointLoop.simps [simp del]

definition propagateNonNull ::
    "(BlockId \<times> BasicBlock) list \<Rightarrow> (BlockId \<times> BlockInfo) list \<Rightarrow> Tree
       \<Rightarrow> (CompilerError + (BlockId \<times> BlockInfo) list \<times> Tree) option" where
  "propagateNonNull blocks nodes tree =
     (case fixpointLoop (blockSuccessorsOf blocks) (map fst blocks) 0
             \<lparr>traversalState = Map.empty, ps_nodes = nodes, ps_tree = tree\<rparr> of
        None \<Rightarrow> None
      | Some (Inl e) \<Rightarrow> Some (Inl e)
      | Some (Inr st) \<Rightarrow> Some (Inr (ps_nodes st, ps_tree st)))"





section \<open>What is modelled\<close>

text \<open>
  The sections above are \<open>Tree\<close>, \<open>pushPropertyLoadNode\<close>, \<open>collectNonNullsInBlocks\<close>,
  \<open>reduceMaybeOptionalChains\<close>, \<open>propagateNonNull\<close> with its inner function, and \<open>assertNonNull\<close>.
  The closure-reference filter (\<open>collectFunctionExpressionRValues\<close>) and the entry point,
  which removes the filter's identifiers from the alias map, runs the extractor and the
  propagator on a new \<open>Tree\<close>, and re-indexes the table by scope id, have no part in the
  properties below; the alias map \<open>temporaries\<close> is the one the extractor receives.
\<close>

section \<open>Example values\<close>

definition ex_ident :: "IdentifierId \<Rightarrow> Identifier" where
  "ex_ident x = \<lparr>ident_id = x, name = None,
                 mutableRange = \<lparr>range_start = 0, range_end = 0\<rparr>, scope = None\<rparr>"

definition ex_entry :: "string \<times> bool \<Rightarrow> DependencyPathEntry" where
  "ex_entry pe = \<lparr>property = fst pe, optional = snd pe\<rparr>"

definition ex_dep :: "IdentifierId \<Rightarrow> (string \<times> bool) list \<Rightarrow> ReactiveScopeDependency" where
  "ex_dep x es = \<lparr>identifier = ex_ident x, path = map ex_entry es\<rparr>"

text \<open>An identifier that is mutable at instruction 5: its range spans more than one
  instruction and its scope's range contains 5.\<close>

definition ex_mutable_ident :: "IdentifierId \<Rightarrow> Identifier" where
  "ex_mutable_ident x = \<lparr>ident_id = x, name = None,
       mutableRange = \<lparr>range_start = 1, range_end = 9\<rparr>,
       scope = Some \<lparr>scope_id = 0, scope_range = \<lparr>range_start = 1, range_end = 9\<rparr>\<rparr>\<rparr>"

text \<open>The trie with the nodes 0 = \<open>a\<close>, 1 = \<open>a.b\<close>, 2 = \<open>a?.b\<close> and 3 = \<open>a?.b.c\<close>.\<close>

definition ex_tree :: Tree where
  "ex_tree = fst (getOrCreateProperty (fst (getOrCreateProperty emptyTree (ex_dep 0 [(''b'', False)])))
      (ex_dep 0 [(''b'', True), (''c'', False)]))"

definition ex_info :: "BlockId \<Rightarrow> BlockId list \<Rightarrow> NodeRef list \<Rightarrow> BlockId \<times> BlockInfo" where
  "ex_info b ps facts =
     (b, \<lparr>block = \<lparr>block_id = b, preds = ps, instructions = [], terminal = OtherTerminal\<rparr>,
          assumedNonNullObjects = facts\<rparr>)"

definition ex_state :: "(BlockId \<times> BlockInfo) list \<Rightarrow> PState" where
  "ex_state nodes = \<lparr>traversalState = Map.empty, ps_nodes = nodes, ps_tree = ex_tree\<rparr>"

definition ex_fn :: "ReactFunctionType \<Rightarrow> Param list \<Rightarrow> HIRFunction" where
  "ex_fn ty ps = \<lparr>fnType = ty, params = ps, body_blocks = [], enablePropagateDepsInHIR = ''enabled''\<rparr>"

definition ex_load :: "InstructionId \<Rightarrow> Identifier \<Rightarrow> Instruction" where
  "ex_load i object =
     \<lparr>instr_id = i, lvalue = \<lparr>place_identifier = ex_ident 100\<rparr>,
      instr_value = PropertyLoad \<lparr>place_identifier = object\<rparr> ''b''\<rparr>"

text \<open>A function of one block whose only predecessor, block 7, does not exist.\<close>

definition ex_fn_missing :: HIRFunction where
  "ex_fn_missing =
     \<lparr>fnType = Other, params = [],
      body_blocks = [(0, \<lparr>block_id = 0, preds = [7], instructions = [],
                           terminal = OtherTerminal\<rparr>)],
      enablePropagateDepsInHIR = ''enabled''\<rparr>"

text \<open>A function of one block that reads identifier 7 twice, through two \<open>Identifier\<close>
  objects: one mutable at both instructions, one without scope.\<close>

definition ex_fn_two_reads :: HIRFunction where
  "ex_fn_two_reads =
     \<lparr>fnType = Other, params = [],
      body_blocks = [(0, \<lparr>block_id = 0, preds = [],
                           instructions = [ex_load 5 (ex_mutable_ident 7), ex_load 6 (ex_ident 7)],
                           terminal = OtherTerminal\<rparr>)],
      enablePropagateDepsInHIR = ''enabled''\<rparr>"

lemmas ex_simps = ex_tree_def ex_dep_def ex_entry_def ex_ident_def getOrCreateProperty_def
      getOrCreateIdentifier_def getOrCreatePropertyEntry_def emptyTree_def Let_def
      ex_info_def ex_state_def recursivelyPropagateNonNull.simps mergeVisited_def
      neighborsOf_def assertNonNull_def Set_union_def Set_intersect_def Set_equal_def
      Set_add_def Set_delete_def Set_filter_def reduceMaybeOptionalChains_def
      reduceDoWhile.simps reduceFor.simps reduceBody_def iteration_def

section \<open>Well-formed tries\<close>

text \<open>
  \<open>childOf\<close> reads a child map without creating anything, \<open>keyOf\<close> is the logical key of a
  node (the id of its root identifier and its path), \<open>lookupKey\<close> follows a key from
  \<open>roots\<close>. A trie is well formed when every root and every child carries the key its
  position gives it, every node is found under its own key, and \<open>hasOptional\<close> says
  whether the path has an optional entry. The empty trie is well formed and the three
  operations keep it so.
\<close>


definition childOf :: "Tree \<Rightarrow> NodeRef \<Rightarrow> DependencyPathEntry \<Rightarrow> NodeRef option" where
  "childOf t i e =
     (if optional e then optionalProperties (heap t ! i) else properties (heap t ! i)) (property e)"

type_synonym DepKey = "IdentifierId \<times> DependencyPathEntry list"

definition keyOf :: "Tree \<Rightarrow> NodeRef \<Rightarrow> DepKey" where
  "keyOf t i = (ident_id (identifier (fullPath (heap t ! i))), path (fullPath (heap t ! i)))"

definition depKey :: "ReactiveScopeDependency \<Rightarrow> DepKey" where
  "depKey d = (ident_id (identifier d), path d)"

fun lookupPath :: "Tree \<Rightarrow> NodeRef \<Rightarrow> DependencyPathEntry list \<Rightarrow> NodeRef option" where
  "lookupPath t i [] = Some i"
| "lookupPath t i (e # es) =
     (case childOf t i e of None \<Rightarrow> None | Some j \<Rightarrow> lookupPath t j es)"

definition lookupKey :: "Tree \<Rightarrow> DepKey \<Rightarrow> NodeRef option" where
  "lookupKey t k = (case roots t (fst k) of None \<Rightarrow> None | Some r \<Rightarrow> lookupPath t r (snd k))"

fun missingPath :: "Tree \<Rightarrow> NodeRef \<Rightarrow> DependencyPathEntry list \<Rightarrow> nat" where
  "missingPath t i [] = 0"
| "missingPath t i (e # es) =
     (case childOf t i e of None \<Rightarrow> length (e # es) | Some j \<Rightarrow> missingPath t j es)"

definition missingNodes :: "Tree \<Rightarrow> ReactiveScopeDependency \<Rightarrow> nat" where
  "missingNodes t d =
     (case roots t (ident_id (identifier d)) of
        None \<Rightarrow> 1 + length (path d)
      | Some r \<Rightarrow> missingPath t r (path d))"

definition wf_tree :: "Tree \<Rightarrow> bool" where
  "wf_tree t \<longleftrightarrow>
     (\<forall>x r. roots t x = Some r \<longrightarrow> r < length (heap t) \<and> keyOf t r = (x, [])) \<and>
     (\<forall>i e j. i < length (heap t) \<longrightarrow> childOf t i e = Some j \<longrightarrow>
        j < length (heap t) \<and>
        fullPath (heap t ! j) =
          \<lparr>identifier = identifier (fullPath (heap t ! i)),
           path = path (fullPath (heap t ! i)) @ [e]\<rparr>) \<and>
     (\<forall>i < length (heap t). lookupKey t (keyOf t i) = Some i) \<and>
     (\<forall>i < length (heap t).
        hasOptional (heap t ! i) = (\<exists>e \<in> set (path (fullPath (heap t ! i))). optional e))"

lemma wf_emptyTree: "wf_tree emptyTree"
  by (simp add: wf_tree_def emptyTree_def)

lemma wf_rootD: "wf_tree t \<Longrightarrow> roots t x = Some r \<Longrightarrow> r < length (heap t) \<and> keyOf t r = (x, [])"
  by (simp add: wf_tree_def)

lemma wf_childD:
  "wf_tree t \<Longrightarrow> i < length (heap t) \<Longrightarrow> childOf t i e = Some j \<Longrightarrow>
     j < length (heap t) \<and>
     fullPath (heap t ! j) =
       \<lparr>identifier = identifier (fullPath (heap t ! i)), path = path (fullPath (heap t ! i)) @ [e]\<rparr>"
  unfolding wf_tree_def by blast

lemma wf_child_key:
  "wf_tree t \<Longrightarrow> i < length (heap t) \<Longrightarrow> childOf t i e = Some j \<Longrightarrow>
     keyOf t j = (fst (keyOf t i), snd (keyOf t i) @ [e])"
  by (drule (2) wf_childD) (simp add: keyOf_def)

lemma wf_lookupD: "wf_tree t \<Longrightarrow> i < length (heap t) \<Longrightarrow> lookupKey t (keyOf t i) = Some i"
  by (simp add: wf_tree_def)

lemma wf_hasOptionalD:
  "wf_tree t \<Longrightarrow> i < length (heap t) \<Longrightarrow>
     hasOptional (heap t ! i) = (\<exists>e \<in> set (snd (keyOf t i)). optional e)"
  by (simp add: wf_tree_def keyOf_def)

lemma lookupPath_append:
  "lookupPath t i (xs @ ys) =
     (case lookupPath t i xs of None \<Rightarrow> None | Some j \<Rightarrow> lookupPath t j ys)"
  by (induction xs arbitrary: i) (auto split: option.splits)

lemma lookupPath_valid:
  "wf_tree t \<Longrightarrow> i < length (heap t) \<Longrightarrow> lookupPath t i es = Some j \<Longrightarrow>
     j < length (heap t) \<and> keyOf t j = (fst (keyOf t i), snd (keyOf t i) @ es)"
proof (induction es arbitrary: i)
  case Nil
  then show ?case by simp
next
  case (Cons e es)
  from Cons.prems obtain k where k: "childOf t i e = Some k" "lookupPath t k es = Some j"
    by (auto split: option.splits)
  from wf_childD[OF Cons.prems(1,2) k(1)] wf_child_key[OF Cons.prems(1,2) k(1)]
  have "k < length (heap t)" "keyOf t k = (fst (keyOf t i), snd (keyOf t i) @ [e])" by auto
  with Cons.IH[OF Cons.prems(1) this(1) k(2)] show ?case by simp
qed

lemma lookupKey_valid:
  assumes "wf_tree t" "lookupKey t k = Some j"
  shows "j < length (heap t) \<and> keyOf t j = k"
proof -
  from assms(2) obtain r where r: "roots t (fst k) = Some r" "lookupPath t r (snd k) = Some j"
    by (auto simp: lookupKey_def split: option.splits)
  from wf_rootD[OF assms(1) r(1)] lookupPath_valid[OF assms(1) _ r(2)]
  show ?thesis by (cases k) auto
qed

lemma keyOf_inj:
  "wf_tree t \<Longrightarrow> i < length (heap t) \<Longrightarrow> j < length (heap t) \<Longrightarrow> keyOf t i = keyOf t j \<Longrightarrow> i = j"
proof -
  assume a: "wf_tree t" "i < length (heap t)" "j < length (heap t)" "keyOf t i = keyOf t j"
  have "Some i = lookupKey t (keyOf t i)" using wf_lookupD[OF a(1,2)] by simp
  also have "\<dots> = Some j" unfolding a(4) using wf_lookupD[OF a(1,3)] .
  finally show "i = j" by simp
qed


subsection \<open>What the trie operations preserve\<close>

definition extends :: "Tree \<Rightarrow> Tree \<Rightarrow> bool" where
  "extends t t' \<longleftrightarrow>
     length (heap t) \<le> length (heap t') \<and>
     (\<forall>i < length (heap t).
        fullPath (heap t' ! i) = fullPath (heap t ! i) \<and>
        hasOptional (heap t' ! i) = hasOptional (heap t ! i) \<and>
        (\<forall>e j. childOf t i e = Some j \<longrightarrow> childOf t' i e = Some j)) \<and>
     (\<forall>x r. roots t x = Some r \<longrightarrow> roots t' x = Some r)"

lemma extends_refl: "extends t t"
  by (simp add: extends_def)

lemma extends_trans: "extends t t' \<Longrightarrow> extends t' t'' \<Longrightarrow> extends t t''"
  unfolding extends_def by (metis (no_types, lifting) le_trans less_le_trans)

lemma extends_length: "extends t t' \<Longrightarrow> i < length (heap t) \<Longrightarrow> i < length (heap t')"
  by (simp add: extends_def)

lemma extends_keyOf: "extends t t' \<Longrightarrow> i < length (heap t) \<Longrightarrow> keyOf t' i = keyOf t i"
  by (simp add: extends_def keyOf_def)

lemma extends_fullPath:
  "extends t t' \<Longrightarrow> i < length (heap t) \<Longrightarrow> fullPath (heap t' ! i) = fullPath (heap t ! i)"
  by (simp add: extends_def)

lemma extends_hasOptional:
  "extends t t' \<Longrightarrow> i < length (heap t) \<Longrightarrow> hasOptional (heap t' ! i) = hasOptional (heap t ! i)"
  by (simp add: extends_def)

lemma extends_childOf:
  "extends t t' \<Longrightarrow> i < length (heap t) \<Longrightarrow> childOf t i e = Some j \<Longrightarrow> childOf t' i e = Some j"
  by (simp add: extends_def)

lemma extends_roots: "extends t t' \<Longrightarrow> roots t x = Some r \<Longrightarrow> roots t' x = Some r"
  by (simp add: extends_def)

lemma extends_lookupPath:
  "wf_tree t \<Longrightarrow> extends t t' \<Longrightarrow> i < length (heap t) \<Longrightarrow> lookupPath t i es = Some j \<Longrightarrow>
     lookupPath t' i es = Some j"
proof (induction es arbitrary: i)
  case Nil
  then show ?case by simp
next
  case (Cons e es)
  from Cons.prems obtain k where k: "childOf t i e = Some k" "lookupPath t k es = Some j"
    by (auto split: option.splits)
  have "k < length (heap t)" using wf_childD[OF Cons.prems(1,3) k(1)] by simp
  from Cons.IH[OF Cons.prems(1,2) this k(2)] extends_childOf[OF Cons.prems(2,3) k(1)]
  show ?case by simp
qed

lemma extends_lookupKey:
  "wf_tree t \<Longrightarrow> extends t t' \<Longrightarrow> lookupKey t k = Some j \<Longrightarrow> lookupKey t' k = Some j"
proof -
  assume a: "wf_tree t" "extends t t'" "lookupKey t k = Some j"
  from a(3) obtain r where r: "roots t (fst k) = Some r" "lookupPath t r (snd k) = Some j"
    by (auto simp: lookupKey_def split: option.splits)
  have "r < length (heap t)" using wf_rootD[OF a(1) r(1)] by simp
  from extends_lookupPath[OF a(1,2) this r(2)] extends_roots[OF a(2) r(1)]
  show ?thesis by (simp add: lookupKey_def)
qed

lemma entry_existing:
  "childOf t par e = Some c \<Longrightarrow> getOrCreatePropertyEntry t par e = (t, c)"
  by (simp add: getOrCreatePropertyEntry_def childOf_def Let_def)

lemma entry_new:
  assumes "childOf t par e = None"
  shows "getOrCreatePropertyEntry t par e =
           (t\<lparr>heap := (heap t)[par :=
                  (if optional e
                   then (heap t ! par)\<lparr>optionalProperties :=
                           (optionalProperties (heap t ! par))(property e \<mapsto> length (heap t))\<rparr>
                   else (heap t ! par)\<lparr>properties :=
                           (properties (heap t ! par))(property e \<mapsto> length (heap t))\<rparr>)]
                @ [\<lparr>properties = Map.empty, optionalProperties = Map.empty, parent = Some par,
                    fullPath = \<lparr>identifier = identifier (fullPath (heap t ! par)),
                                path = path (fullPath (heap t ! par)) @ [e]\<rparr>,
                    hasOptional = (hasOptional (heap t ! par) \<or> optional e), root = None\<rparr>]\<rparr>,
            length (heap t))"
  using assms by (simp add: getOrCreatePropertyEntry_def childOf_def Let_def)

lemma entry_new_props:
  assumes new: "childOf t par e = None" and par: "par < length (heap t)"
    and res: "getOrCreatePropertyEntry t par e = (t', c)"
  shows "c = length (heap t)"
    and "length (heap t') = Suc (length (heap t))"
    and "roots t' = roots t"
    and "\<And>i. i < length (heap t) \<Longrightarrow> fullPath (heap t' ! i) = fullPath (heap t ! i)"
    and "\<And>i. i < length (heap t) \<Longrightarrow> hasOptional (heap t' ! i) = hasOptional (heap t ! i)"
    and "\<And>i e'. i < length (heap t) \<Longrightarrow>
           childOf t' i e' = (if i = par \<and> e' = e then Some c else childOf t i e')"
    and "\<And>e'. childOf t' c e' = None"
    and "fullPath (heap t' ! c) =
           \<lparr>identifier = identifier (fullPath (heap t ! par)),
            path = path (fullPath (heap t ! par)) @ [e]\<rparr>"
    and "hasOptional (heap t' ! c) = (hasOptional (heap t ! par) \<or> optional e)"
    and "parent (heap t' ! c) = Some par"
proof -
  note r = res[unfolded entry_new[OF new], simplified]
  from r show c: "c = length (heap t)" by simp
  from r show "length (heap t') = Suc (length (heap t))" by auto
  from r show "roots t' = roots t" by auto
  { fix i assume i: "i < length (heap t)"
    from r i par show "fullPath (heap t' ! i) = fullPath (heap t ! i)"
      by (cases "i = par") (auto simp: nth_append split: if_splits)
    from r i par show "hasOptional (heap t' ! i) = hasOptional (heap t ! i)"
      by (cases "i = par") (auto simp: nth_append split: if_splits)
    fix e'
    have "e' = e \<longleftrightarrow> property e' = property e \<and> optional e' = optional e" by auto
    with r i par new show "childOf t' i e' = (if i = par \<and> e' = e then Some c else childOf t i e')"
      by (cases "i = par") (auto simp: nth_append childOf_def split: if_splits) }
  from r show "\<And>e'. childOf t' c e' = None" by (auto simp: childOf_def nth_append)
  from r show "fullPath (heap t' ! c) =
           \<lparr>identifier = identifier (fullPath (heap t ! par)),
            path = path (fullPath (heap t ! par)) @ [e]\<rparr>" by (auto simp: nth_append)
  from r show "hasOptional (heap t' ! c) = (hasOptional (heap t ! par) \<or> optional e)"
    by (auto simp: nth_append)
  from r show "parent (heap t' ! c) = Some par" by (auto simp: nth_append)
qed


lemma entry_new_extends:
  assumes "childOf t par e = None" "par < length (heap t)"
    "getOrCreatePropertyEntry t par e = (t', c)"
  shows "extends t t'"
  unfolding extends_def
  using entry_new_props(2,3,4,5,6)[OF assms] assms(1)
  by (auto simp del: fun_upd_apply)

lemma entry_new_wf:
  assumes new: "childOf t par e = None" and par: "par < length (heap t)"
    and res: "getOrCreatePropertyEntry t par e = (t', c)" and wf: "wf_tree t"
  shows "wf_tree t'"
proof -
  note P = entry_new_props[OF new par res]
  note ext = entry_new_extends[OF new par res]
  have c: "c = length (heap t)" by (rule P(1))
  have len: "length (heap t') = Suc (length (heap t))" by (rule P(2))
  have key_old: "\<And>i. i < length (heap t) \<Longrightarrow> keyOf t' i = keyOf t i"
    using extends_keyOf[OF ext] .
  have key_c: "keyOf t' c = (fst (keyOf t par), snd (keyOf t par) @ [e])"
    using P(8) by (simp add: keyOf_def)
  have w1: "\<forall>x r. roots t' x = Some r \<longrightarrow> r < length (heap t') \<and> keyOf t' r = (x, [])"
  proof (intro allI impI)
    fix x r assume "roots t' x = Some r"
    then have "roots t x = Some r" using P(3) by simp
    from wf_rootD[OF wf this] key_old len show "r < length (heap t') \<and> keyOf t' r = (x, [])"
      by simp
  qed
  have w2: "\<forall>i e' j. i < length (heap t') \<longrightarrow> childOf t' i e' = Some j \<longrightarrow>
        j < length (heap t') \<and>
        fullPath (heap t' ! j) =
          \<lparr>identifier = identifier (fullPath (heap t' ! i)),
           path = path (fullPath (heap t' ! i)) @ [e']\<rparr>"
  proof (intro allI impI)
    fix i e' j assume i: "i < length (heap t')" and ch: "childOf t' i e' = Some j"
    from i len ch P(7) c have i': "i < length (heap t)" by (cases "i = c") auto
    show "j < length (heap t') \<and>
        fullPath (heap t' ! j) =
          \<lparr>identifier = identifier (fullPath (heap t' ! i)),
           path = path (fullPath (heap t' ! i)) @ [e']\<rparr>"
    proof (cases "i = par \<and> e' = e")
      case True
      with ch P(6)[OF i', of e'] have "j = c" by simp
      with True P(8) P(4)[OF par] c len show ?thesis by simp
    next
      case False
      with ch P(6)[OF i', of e'] have ch': "childOf t i e' = Some j" by (simp split: if_splits)
      from wf_childD[OF wf i' ch'] P(4)[OF i'] P(4)[of j] len show ?thesis by simp
    qed
  qed
  have w3: "\<forall>i < length (heap t'). lookupKey t' (keyOf t' i) = Some i"
  proof (intro allI impI)
    fix i assume i: "i < length (heap t')"
    show "lookupKey t' (keyOf t' i) = Some i"
    proof (cases "i = c")
      case False
      with i len c have i': "i < length (heap t)" by simp
      from extends_lookupKey[OF wf ext wf_lookupD[OF wf i']] key_old[OF i'] show ?thesis by simp
    next
      case True
      from wf_lookupD[OF wf par] obtain r where
        r: "roots t (fst (keyOf t par)) = Some r" "lookupPath t r (snd (keyOf t par)) = Some par"
        by (auto simp: lookupKey_def split: option.splits)
      have rl: "r < length (heap t)" using wf_rootD[OF wf r(1)] by simp
      have "lookupPath t' r (snd (keyOf t par)) = Some par"
        by (rule extends_lookupPath[OF wf ext rl r(2)])
      moreover have "childOf t' par e = Some c" using P(6)[OF par, of e] by simp
      ultimately have "lookupPath t' r (snd (keyOf t par) @ [e]) = Some c"
        by (simp add: lookupPath_append)
      with r(1) P(3) key_c True show ?thesis by (simp add: lookupKey_def)
    qed
  qed
  have w4: "\<forall>i < length (heap t').
        hasOptional (heap t' ! i) = (\<exists>e \<in> set (path (fullPath (heap t' ! i))). optional e)"
  proof (intro allI impI)
    fix i assume i: "i < length (heap t')"
    show "hasOptional (heap t' ! i) = (\<exists>e \<in> set (path (fullPath (heap t' ! i))). optional e)"
    proof (cases "i = c")
      case False
      with i len c have i': "i < length (heap t)" by simp
      from wf_hasOptionalD[OF wf i'] P(4)[OF i'] P(5)[OF i'] show ?thesis
        by (simp add: keyOf_def)
    next
      case True
      from wf_hasOptionalD[OF wf par] P(8) P(9) True show ?thesis
        by (auto simp: keyOf_def)
    qed
  qed
  from w1 w2 w3 w4 show ?thesis unfolding wf_tree_def by blast
qed

text \<open>One call of \<open>getOrCreatePropertyEntry\<close> on a well-formed trie.\<close>

lemma entry_wf:
  assumes wf: "wf_tree t" and par: "par < length (heap t)"
    and res: "getOrCreatePropertyEntry t par e = (t', c)"
  shows "wf_tree t'" and "extends t t'" and "c < length (heap t')"
    and "keyOf t' c = (fst (keyOf t par), snd (keyOf t par) @ [e])"
    and "childOf t' par e = Some c"
proof -
  show "wf_tree t'"
  proof (cases "childOf t par e")
    case None
    from entry_new_wf[OF None par res wf] show ?thesis .
  next
    case (Some j)
    with res wf show ?thesis by (simp add: entry_existing)
  qed
  show "extends t t'"
  proof (cases "childOf t par e")
    case None
    from entry_new_extends[OF None par res] show ?thesis .
  next
    case (Some j)
    with res show ?thesis by (simp add: entry_existing extends_refl)
  qed
  show "c < length (heap t')"
  proof (cases "childOf t par e")
    case None
    from entry_new_props(1,2)[OF None par res] show ?thesis by simp
  next
    case (Some j)
    with res wf_childD[OF wf par Some] show ?thesis by (simp add: entry_existing)
  qed
  show "keyOf t' c = (fst (keyOf t par), snd (keyOf t par) @ [e])"
  proof (cases "childOf t par e")
    case None
    from entry_new_props(8)[OF None par res] show ?thesis by (simp add: keyOf_def)
  next
    case (Some j)
    with res wf_child_key[OF wf par Some] show ?thesis by (simp add: entry_existing)
  qed
  show "childOf t' par e = Some c"
  proof (cases "childOf t par e")
    case None
    from entry_new_props(6)[OF None par res par, of e] show ?thesis by simp
  next
    case (Some j)
    with res show ?thesis by (simp add: entry_existing)
  qed
qed


lemma entry_length:
  assumes "par < length (heap t)" "getOrCreatePropertyEntry t par e = (t', c)"
  shows "length (heap t') = length (heap t) + (case childOf t par e of None \<Rightarrow> 1 | Some _ \<Rightarrow> 0)"
proof (cases "childOf t par e")
  case None
  from entry_new_props(2)[OF None assms] None show ?thesis by simp
next
  case (Some j)
  with assms show ?thesis by (simp add: entry_existing)
qed

lemma identifier_wf:
  assumes wf: "wf_tree t" and res: "getOrCreateIdentifier t ident = (t', r)"
  shows "wf_tree t'" and "extends t t'" and "r < length (heap t')"
    and "keyOf t' r = (ident_id ident, [])" and "roots t' (ident_id ident) = Some r"
    and "length (heap t') =
           length (heap t) + (case roots t (ident_id ident) of None \<Rightarrow> 1 | Some _ \<Rightarrow> 0)"
proof -
  have "wf_tree t' \<and> extends t t' \<and> r < length (heap t') \<and> keyOf t' r = (ident_id ident, []) \<and>
        roots t' (ident_id ident) = Some r \<and>
        length (heap t') =
           length (heap t) + (case roots t (ident_id ident) of None \<Rightarrow> 1 | Some _ \<Rightarrow> 0)"
  proof (cases "roots t (ident_id ident)")
    case (Some r')
    with res have "t' = t" "r = r'" by (auto simp: getOrCreateIdentifier_def)
    with Some wf wf_rootD[OF wf Some] show ?thesis by (simp add: extends_refl)
  next
    case None
    let ?n = "\<lparr>properties = Map.empty, optionalProperties = Map.empty, parent = None,
               fullPath = \<lparr>identifier = ident, path = []\<rparr>, hasOptional = False,
               root = Some (ident_id ident)\<rparr>"
    from None res have t': "t' = t\<lparr>roots := (roots t)(ident_id ident \<mapsto> length (heap t)),
                                  heap := heap t @ [?n]\<rparr>"
      and r: "r = length (heap t)"
      by (auto simp: getOrCreateIdentifier_def Let_def)
    have old: "\<And>i. i < length (heap t) \<Longrightarrow> heap t' ! i = heap t ! i"
      by (simp add: t' nth_append)
    have new: "heap t' ! r = ?n" by (simp add: t' r)
    have len: "length (heap t') = Suc (length (heap t))" by (simp add: t')
    have ch_old: "\<And>i e. i < length (heap t) \<Longrightarrow> childOf t' i e = childOf t i e"
      by (simp add: childOf_def old)
    have ch_new: "\<And>e. childOf t' r e = None" by (simp add: childOf_def new)
    have key_old: "\<And>i. i < length (heap t) \<Longrightarrow> keyOf t' i = keyOf t i"
      by (simp add: keyOf_def old)
    have key_new: "keyOf t' r = (ident_id ident, [])" by (simp add: keyOf_def new)
    have rt: "\<And>x ra. roots t x = Some ra \<Longrightarrow> roots t' x = Some ra"
      using None by (auto simp: t')
    have ext: "extends t t'"
      unfolding extends_def using rt by (auto simp: old ch_old len)
    have "wf_tree t'"
      unfolding wf_tree_def
    proof (intro conjI allI impI)
      fix x ra assume a: "roots t' x = Some ra"
      show "ra < length (heap t')"
        using a wf_rootD[OF wf, of x ra] len by (auto simp: t' split: if_splits)
      show "keyOf t' ra = (x, [])"
        using a wf_rootD[OF wf, of x ra] key_old[of ra] key_new
        by (cases "x = ident_id ident") (auto simp: t' r)
    next
      fix i e j assume i: "i < length (heap t')" and ch: "childOf t' i e = Some j"
      from i ch ch_new len r have i': "i < length (heap t)" by (cases "i = r") auto
      from wf_childD[OF wf i'] ch ch_old[OF i'] have
        j: "j < length (heap t)" "fullPath (heap t ! j) =
          \<lparr>identifier = identifier (fullPath (heap t ! i)), path = path (fullPath (heap t ! i)) @ [e]\<rparr>"
        by auto
      from j len show "j < length (heap t')" by simp
      from j old[OF i'] old[OF j(1)] show "fullPath (heap t' ! j) =
          \<lparr>identifier = identifier (fullPath (heap t' ! i)),
           path = path (fullPath (heap t' ! i)) @ [e]\<rparr>" by simp
    next
      fix i assume i: "i < length (heap t')"
      show "lookupKey t' (keyOf t' i) = Some i"
      proof (cases "i = r")
        case True
        then show ?thesis by (simp add: key_new lookupKey_def) (simp add: t' r)
      next
        case False
        with i len r have i': "i < length (heap t)" by simp
        from extends_lookupKey[OF wf ext wf_lookupD[OF wf i']] key_old[OF i'] show ?thesis by simp
      qed
      show "hasOptional (heap t' ! i) = (\<exists>e \<in> set (path (fullPath (heap t' ! i))). optional e)"
      proof (cases "i = r")
        case True
        then show ?thesis by (simp add: new)
      next
        case False
        with i len r have i': "i < length (heap t)" by simp
        from wf_hasOptionalD[OF wf i'] old[OF i'] show ?thesis by (simp add: keyOf_def)
      qed
    qed
    moreover have "roots t' (ident_id ident) = Some r" by (simp add: t' r)
    ultimately show ?thesis using ext key_new len r None by simp
  qed
  then show "wf_tree t'" and "extends t t'" and "r < length (heap t')"
    and "keyOf t' r = (ident_id ident, [])" and "roots t' (ident_id ident) = Some r"
    and "length (heap t') =
           length (heap t) + (case roots t (ident_id ident) of None \<Rightarrow> 1 | Some _ \<Rightarrow> 0)"
    by blast+
qed

lemma entries_wf:
  "wf_tree t \<Longrightarrow> i < length (heap t) \<Longrightarrow> getOrCreateEntries t i es = (t', j) \<Longrightarrow>
     wf_tree t' \<and> extends t t' \<and> j < length (heap t') \<and>
     keyOf t' j = (fst (keyOf t i), snd (keyOf t i) @ es) \<and>
     lookupPath t' i es = Some j \<and>
     length (heap t') = length (heap t) + missingPath t i es"
proof (induction es arbitrary: t i)
  case Nil
  then show ?case by (simp add: extends_refl)
next
  case (Cons e es)
  obtain t1 c where s1: "getOrCreatePropertyEntry t i e = (t1, c)" by force
  with Cons.prems have s2: "getOrCreateEntries t1 c es = (t', j)" by simp
  note E = entry_wf[OF Cons.prems(1,2) s1]
  note IH = Cons.IH[OF E(1) E(3) s2]
  have k: "keyOf t' j = (fst (keyOf t i), snd (keyOf t i) @ e # es)"
    using IH E(4) by simp
  have l: "lookupPath t' i (e # es) = Some j"
    using IH extends_childOf[OF _ extends_length[OF E(2) Cons.prems(2)] E(5), of t'] by simp
  have m: "length (heap t') = length (heap t) + missingPath t i (e # es)"
  proof (cases "childOf t i e")
    case (Some k)
    with s1 have "t1 = t" "c = k" by (simp_all add: entry_existing)
    with IH Some show ?thesis by simp
  next
    case None
    have "missingPath t1 c es = length es"
      using entry_new_props(7)[OF None Cons.prems(2) s1] by (cases es) auto
    with IH entry_new_props(2)[OF None Cons.prems(2) s1] None show ?thesis by simp
  qed
  from IH E(2) k l m show ?case by (auto intro: extends_trans)
qed

lemma entries_snoc:
  "getOrCreateEntries t i (es @ [e]) =
     (case getOrCreateEntries t i es of (t', j) \<Rightarrow> getOrCreatePropertyEntry t' j e)"
  by (induction es arbitrary: t i) (auto split: prod.splits)

text \<open>\<open>getOrCreateProperty\<close> walks the whole path from the root.\<close>

lemma getOrCreateProperty_walk:
  "getOrCreateProperty t d =
     (case getOrCreateIdentifier t (identifier d) of
        (t1, r) \<Rightarrow> getOrCreateEntries t1 r (path d))"
proof (cases "path d = []")
  case True
  then show ?thesis by (simp add: getOrCreateProperty_def split: prod.splits)
next
  case False
  then have "path d = butlast (path d) @ [last (path d)]" by simp
  then have "getOrCreateEntries t1 r (path d) =
     (case getOrCreateEntries t1 r (butlast (path d)) of
        (t', j) \<Rightarrow> getOrCreatePropertyEntry t' j (last (path d)))" for t1 r
    using entries_snoc[of t1 r "butlast (path d)" "last (path d)"] by simp
  with False show ?thesis by (simp add: getOrCreateProperty_def split: prod.splits)
qed

lemma property_wf:
  assumes wf: "wf_tree t" and res: "getOrCreateProperty t d = (t', n)"
  shows "wf_tree t'" and "extends t t'" and "n < length (heap t')"
    and "keyOf t' n = depKey d" and "lookupKey t' (depKey d) = Some n"
    and "length (heap t') = length (heap t) + missingNodes t d"
proof -
  obtain t1 r where s1: "getOrCreateIdentifier t (identifier d) = (t1, r)" by force
  with res have s2: "getOrCreateEntries t1 r (path d) = (t', n)"
    by (simp add: getOrCreateProperty_walk)
  note I = identifier_wf[OF wf s1]
  note E = entries_wf[OF I(1) I(3) s2]
  from E show "wf_tree t'" by simp
  from E I(2) show "extends t t'" by (auto intro: extends_trans)
  from E show "n < length (heap t')" by simp
  from E I(4) show "keyOf t' n = depKey d" by (simp add: depKey_def)
  from E extends_roots[OF _ I(5), of t'] show "lookupKey t' (depKey d) = Some n"
    by (simp add: lookupKey_def depKey_def)
  show "length (heap t') = length (heap t) + missingNodes t d"
  proof (cases "roots t (ident_id (identifier d))")
    case (Some r')
    with s1 have "t1 = t" "r = r'" by (auto simp: getOrCreateIdentifier_def)
    with E Some show ?thesis by (simp add: missingNodes_def)
  next
    case None
    have "childOf t1 r e = None" for e
      using None s1 by (auto simp: getOrCreateIdentifier_def Let_def childOf_def)
    then have "missingPath t1 r (path d) = length (path d)" by (cases "path d") auto
    with E I(6) None show ?thesis by (simp add: missingNodes_def)
  qed
qed

lemma entries_found:
  "lookupPath t i es = Some j \<Longrightarrow> getOrCreateEntries t i es = (t, j)"
  by (induction es arbitrary: i) (auto simp: entry_existing split: option.splits)

lemma property_found:
  "lookupKey t (depKey d) = Some n \<Longrightarrow> getOrCreateProperty t d = (t, n)"
  by (auto simp: lookupKey_def depKey_def getOrCreateProperty_walk getOrCreateIdentifier_def
                 entries_found split: option.splits)


section \<open>Canonical deduplication\<close>

text \<open>
  Claim C4. On a well-formed trie, resolving a dependency \<open>d\<close> yields a node \<open>n1\<close>;
  resolving any dependency with the same root identifier id and the same path again, at
  once or after \<open>d\<close> extended by one entry \<open>e\<close> was resolved, returns the same node and
  leaves the trie as it is. Resolving \<open>d\<close> creates exactly the nodes that were missing
  (\<open>missingNodes\<close>: the root if absent, and the entries from the first absent child on),
  and never touches an existing node's key. Resolving \<open>d\<close> extended by \<open>e\<close> afterwards
  creates at most one node, a child of \<open>n1\<close>: the node of \<open>d\<close> is not created again.
\<close>

theorem C4_canonical_dedup:
  assumes wf: "wf_tree t"
    and r1: "getOrCreateProperty t d = (t1, n1)"
    and same: "ident_id (identifier d') = ident_id (identifier d)" "path d' = path d"
    and r2: "getOrCreateProperty t1 (d\<lparr>path := path d @ [e]\<rparr>) = (t2, n2)"
  shows "getOrCreateProperty t1 d' = (t1, n1) \<and>
         getOrCreateProperty t2 d' = (t2, n1) \<and>
         length (heap t1) = length (heap t) + missingNodes t d \<and>
         (\<forall>i < length (heap t). keyOf t1 i = keyOf t i) \<and>
         keyOf t1 n1 = depKey d \<and>
         length (heap t2) = length (heap t1) + (case childOf t1 n1 e of None \<Rightarrow> 1 | Some _ \<Rightarrow> 0) \<and>
         childOf t2 n1 e = Some n2 \<and> n2 \<noteq> n1"
proof -
  note P1 = property_wf[OF wf r1]
  note P2 = property_wf[OF P1(1) r2]
  have k: "depKey d' = depKey d" using same by (simp add: depKey_def)
  have a: "getOrCreateProperty t1 d' = (t1, n1)"
    using P1(5) k by (simp add: property_found)
  have "lookupKey t2 (depKey d) = Some n1"
    by (rule extends_lookupKey[OF P1(1) P2(2) P1(5)])
  then have b: "getOrCreateProperty t2 d' = (t2, n1)"
    using k by (simp add: property_found)
  have c: "\<forall>i < length (heap t). keyOf t1 i = keyOf t i"
    using extends_keyOf[OF P1(2)] by simp
  from P1(5) obtain r where r: "roots t1 (ident_id (identifier d)) = Some r"
      "lookupPath t1 r (path d) = Some n1"
    by (auto simp: lookupKey_def depKey_def split: option.splits)
  have id1: "getOrCreateIdentifier t1 (identifier d) = (t1, r)"
    using r(1) by (simp add: getOrCreateIdentifier_def)
  have "getOrCreateEntries t1 r (path d @ [e]) = getOrCreatePropertyEntry t1 n1 e"
    using entries_found[OF r(2)] by (simp add: entries_snoc)
  with r2 id1 have e2: "getOrCreatePropertyEntry t1 n1 e = (t2, n2)"
    by (simp add: getOrCreateProperty_walk)
  note E = entry_wf[OF P1(1) P1(3) e2]
  have d: "length (heap t2) = length (heap t1) + (case childOf t1 n1 e of None \<Rightarrow> 1 | Some _ \<Rightarrow> 0)"
    by (rule entry_length[OF P1(3) e2])
  have "keyOf t2 n1 = keyOf t1 n1" by (rule extends_keyOf[OF E(2) P1(3)])
  with E(4) have "keyOf t2 n2 \<noteq> keyOf t2 n1" by (cases "keyOf t1 n1") auto
  then have "n2 \<noteq> n1" by auto
  with a b c d P1(4,6) E(5) show ?thesis by simp
qed

theorem C4_canonical_dedup_witness:
  "wf_tree emptyTree \<and>
   (case getOrCreateProperty emptyTree (ex_dep 0 [(''b'', False)]) of
      (t1, n1) \<Rightarrow>
        (case getOrCreateProperty t1 (ex_dep 0 [(''b'', False), (''c'', False)]) of
           (t2, n2) \<Rightarrow>
             getOrCreateProperty t1 (ex_dep 0 [(''b'', False)]) = (t1, n1) \<and>
             getOrCreateProperty t2 (ex_dep 0 [(''b'', False)]) = (t2, n1) \<and>
             length (heap t1) = 2 \<and> length (heap t2) = 3 \<and> n2 \<noteq> n1))"
proof -
  let ?d = "ex_dep 0 [(''b'', False)]"
  obtain t1 n1 where r1: "getOrCreateProperty emptyTree ?d = (t1, n1)" by force
  have ext: "?d\<lparr>path := path ?d @ [ex_entry (''c'', False)]\<rparr> = ex_dep 0 [(''b'', False), (''c'', False)]"
    by (simp add: ex_dep_def)
  obtain t2 n2 where r2: "getOrCreateProperty t1 (?d\<lparr>path := path ?d @ [ex_entry (''c'', False)]\<rparr>) = (t2, n2)"
    by force
  have m: "missingNodes emptyTree ?d = 2"
    by (simp add: missingNodes_def emptyTree_def ex_dep_def)
  have h1: "length (heap t1) = 2"
    using C4_canonical_dedup[OF wf_emptyTree r1 refl refl r2] m by (simp add: emptyTree_def)
  have "childOf t1 n1 (ex_entry (''c'', False)) = None"
    using r1 by (auto simp: getOrCreateProperty_def getOrCreateIdentifier_def
        getOrCreatePropertyEntry_def emptyTree_def ex_dep_def ex_ident_def ex_entry_def Let_def
        childOf_def)
  then have h2: "length (heap t2) = 3"
    using C4_canonical_dedup[OF wf_emptyTree r1 refl refl r2] h1 by simp
  show ?thesis
    using C4_canonical_dedup[OF wf_emptyTree r1 refl refl r2] wf_emptyTree r1 r2 h1 h2
    by (simp add: ext)
qed

section \<open>Canonicalization on a well-formed trie\<close>

definition optCount :: "DependencyPathEntry list \<Rightarrow> nat" where
  "optCount es = length (filter optional es)"

text \<open>\<open>relaxes es' es\<close>: the same properties in the same order, and an entry of \<open>es'\<close> is
  optional only where the entry of \<open>es\<close> is.\<close>

definition relaxes :: "DependencyPathEntry list \<Rightarrow> DependencyPathEntry list \<Rightarrow> bool" where
  "relaxes es' es =
     list_all2 (\<lambda>e' e. property e' = property e \<and> (optional e' \<longrightarrow> optional e)) es' es"

lemma relaxes_refl: "relaxes es es"
  by (simp add: relaxes_def list_all2_refl)

lemma relaxes_Cons:
  "relaxes (e' # es') (e # es) \<longleftrightarrow>
     property e' = property e \<and> (optional e' \<longrightarrow> optional e) \<and> relaxes es' es"
  by (simp add: relaxes_def)

lemma relaxes_optCount: "relaxes es' es \<Longrightarrow> optCount es' \<le> optCount es"
  unfolding relaxes_def optCount_def
  by (induction es' es rule: list_all2_induct) auto

lemma relaxes_optCount_less:
  "relaxes es' es \<Longrightarrow> es' \<noteq> es \<Longrightarrow> optCount es' < optCount es"
  unfolding relaxes_def
proof (induction es' es rule: list_all2_induct)
  case Nil
  then show ?case by simp
next
  case (Cons e' es' e es)
  have le: "optCount es' \<le> optCount es"
    using Cons.hyps(2) relaxes_optCount by (simp add: relaxes_def)
  show ?case
  proof (cases "e' = e")
    case True
    with Cons have "optCount es' < optCount es" by simp
    with True show ?thesis by (simp add: optCount_def)
  next
    case False
    have "e' = e" if "property e' = property e" "optional e' = optional e"
      using that by simp
    with False Cons.hyps(1) have "optional e \<and> \<not> optional e'" by blast
    with le show ?thesis by (simp add: optCount_def)
  qed
qed

lemma rewalk_wf:
  "wf_tree t \<Longrightarrow> i < length (heap t) \<Longrightarrow> rewalk t K i es = (t', j) \<Longrightarrow>
     wf_tree t' \<and> extends t t' \<and> j < length (heap t') \<and>
     (\<exists>es'. relaxes es' es \<and> keyOf t' j = (fst (keyOf t i), snd (keyOf t i) @ es'))"
proof (induction es arbitrary: t i)
  case Nil
  have "relaxes [] [] \<and> keyOf t i = (fst (keyOf t i), snd (keyOf t i) @ [])"
    by (simp add: relaxes_refl)
  with Nil show ?case by (auto simp: extends_refl)
next
  case (Cons e es)
  define e' where "e' = (if optional e \<and> i \<in> set K
                          then \<lparr>property = property e, optional = False\<rparr> else e)"
  obtain t1 c where s1: "getOrCreatePropertyEntry t i e' = (t1, c)" by force
  with Cons.prems have s2: "rewalk t1 K c es = (t', j)" by (simp add: e'_def Let_def)
  note E = entry_wf[OF Cons.prems(1,2) s1]
  from Cons.IH[OF E(1) E(3) s2] obtain es' where
    IH: "wf_tree t'" "extends t1 t'" "j < length (heap t')" "relaxes es' es"
        "keyOf t' j = (fst (keyOf t1 c), snd (keyOf t1 c) @ es')" by blast
  have "relaxes (e' # es') (e # es)" using IH(4) by (simp add: relaxes_Cons e'_def)
  moreover have "keyOf t' j = (fst (keyOf t i), snd (keyOf t i) @ e' # es')"
    using IH(5) E(4) by simp
  ultimately show ?case using IH(1,2,3) E(2) extends_trans by blast
qed

text \<open>The walk that the loop body makes for one member: from the root of its identifier
  along its own path.\<close>

definition rewalkNode :: "Tree \<Rightarrow> NodeRef list \<Rightarrow> NodeRef \<Rightarrow> Tree \<times> NodeRef" where
  "rewalkNode t K original =
     (let d = fullPath (heap t ! original) in
      case getOrCreateIdentifier t (identifier d) of (t1, r) \<Rightarrow> rewalk t1 K r (path d))"

lemma wf_root_of:
  assumes "wf_tree t" "i < length (heap t)"
  obtains r where "roots t (fst (keyOf t i)) = Some r" "r < length (heap t)"
    "keyOf t r = (fst (keyOf t i), [])" "lookupPath t r (snd (keyOf t i)) = Some i"
proof -
  from wf_lookupD[OF assms] obtain r where
    r: "roots t (fst (keyOf t i)) = Some r" "lookupPath t r (snd (keyOf t i)) = Some i"
    by (auto simp: lookupKey_def split: option.splits)
  from wf_rootD[OF assms(1) r(1)] r that show thesis by blast
qed

lemma rewalkNode_wf:
  assumes wf: "wf_tree t" and i: "i < length (heap t)" and res: "rewalkNode t K i = (t', j)"
  shows "wf_tree t'" and "extends t t'" and "j < length (heap t')"
    and "fst (keyOf t' j) = fst (keyOf t i)"
    and "relaxes (snd (keyOf t' j)) (snd (keyOf t i))"
    and "j \<noteq> i \<Longrightarrow> optCount (snd (keyOf t' j)) < optCount (snd (keyOf t i))"
proof -
  obtain r where r: "roots t (fst (keyOf t i)) = Some r" "r < length (heap t)"
    "keyOf t r = (fst (keyOf t i), [])"
    using wf_root_of[OF wf i] by blast
  have "getOrCreateIdentifier t (identifier (fullPath (heap t ! i))) = (t, r)"
    using r(1) by (simp add: getOrCreateIdentifier_def keyOf_def)
  with res have w: "rewalk t K r (snd (keyOf t i)) = (t', j)"
    by (simp add: rewalkNode_def Let_def keyOf_def)
  from rewalk_wf[OF wf r(2) w] r(3) obtain es' where
    R: "wf_tree t'" "extends t t'" "j < length (heap t')" "relaxes es' (snd (keyOf t i))"
       "keyOf t' j = (fst (keyOf t i), es')" by auto
  from R show "wf_tree t'" "extends t t'" "j < length (heap t')"
    "fst (keyOf t' j) = fst (keyOf t i)" "relaxes (snd (keyOf t' j)) (snd (keyOf t i))"
    by simp_all
  assume ne: "j \<noteq> i"
  have "es' \<noteq> snd (keyOf t i)"
  proof
    assume "es' = snd (keyOf t i)"
    with R(5) have "keyOf t' j = keyOf t i" by simp
    also have "\<dots> = keyOf t' i" using extends_keyOf[OF R(2) i] by simp
    finally have "j = i" using keyOf_inj[OF R(1) R(3) extends_length[OF R(2) i]] by simp
    with ne show False by simp
  qed
  with R(4,5) show "optCount (snd (keyOf t' j)) < optCount (snd (keyOf t i))"
    by (simp add: relaxes_optCount_less)
qed

lemma reduceBody_rewalkNode:
  "reduceBody original rest s =
     (case rewalkNode (rs_tree s) (rs_knownNonNulls s) original of
        (t2, currNode) \<Rightarrow>
          if currNode \<noteq> original
          then s\<lparr>rs_tree := t2, rs_changed := True,
                 rs_pending := (if currNode \<in> set (rs_visited s) \<union> set rest
                                then rest else rest @ [currNode]),
                 rs_nodes := Set_add (Set_delete (rs_nodes s) original) currNode,
                 rs_knownNonNulls := Set_add (rs_knownNonNulls s) currNode\<rparr>
          else s\<lparr>rs_tree := t2, rs_visited := rs_visited s @ [original], rs_pending := rest\<rparr>)"
  by (simp add: reduceBody_def rewalkNode_def Let_def split: prod.splits)


subsection \<open>The invariant of the two loops and their measure\<close>

definition validRefs :: "Tree \<Rightarrow> NodeRef list \<Rightarrow> bool" where
  "validRefs t xs = (\<forall>x \<in> set xs. x < length (heap t))"

definition weight :: "Tree \<Rightarrow> NodeRef list \<Rightarrow> nat" where
  "weight t xs = sum_list (map (\<lambda>i. Suc (optCount (snd (keyOf t i)))) xs)"

definition reduceInv :: "ReduceState \<Rightarrow> bool" where
  "reduceInv s \<longleftrightarrow>
     wf_tree (rs_tree s) \<and>
     validRefs (rs_tree s) (rs_nodes s) \<and>
     validRefs (rs_tree s) (rs_knownNonNulls s) \<and>
     distinct (rs_nodes s) \<and>
     distinct (rs_visited s @ rs_pending s) \<and>
     set (rs_visited s @ rs_pending s) \<subseteq> set (rs_nodes s) \<and>
     {n \<in> set (rs_nodes s). hasOptional (heap (rs_tree s) ! n)} \<subseteq> set (rs_visited s @ rs_pending s) \<and>
     set (rs_nodes s) \<subseteq> set (rs_knownNonNulls s)"

lemma validRefs_extends: "extends t t' \<Longrightarrow> validRefs t xs \<Longrightarrow> validRefs t' xs"
  by (auto simp: validRefs_def dest: extends_length)

lemma validRefs_append: "validRefs t (xs @ ys) \<longleftrightarrow> validRefs t xs \<and> validRefs t ys"
  by (auto simp: validRefs_def)

lemma validRefs_subset: "validRefs t ys \<Longrightarrow> set xs \<subseteq> set ys \<Longrightarrow> validRefs t xs"
  by (auto simp: validRefs_def)

lemma weight_extends: "extends t t' \<Longrightarrow> validRefs t xs \<Longrightarrow> weight t' xs = weight t xs"
  unfolding weight_def validRefs_def
  by (induction xs) (auto simp: extends_keyOf)

lemma weight_append: "weight t (xs @ ys) = weight t xs + weight t ys"
  by (simp add: weight_def)

lemma weight_Cons: "weight t (x # xs) = Suc (optCount (snd (keyOf t x))) + weight t xs"
  by (simp add: weight_def)

lemma weight_Nil: "weight t [] = 0"
  by (simp add: weight_def)

lemma set_Set_add: "set (Set_add xs x) = insert x (set xs)"
  by (auto simp: Set_add_def)

lemma set_Set_delete: "set (Set_delete xs x) = set xs - {x}"
  by (auto simp: Set_delete_def)

lemma distinct_Set_add: "distinct xs \<Longrightarrow> distinct (Set_add xs x)"
  by (auto simp: Set_add_def)

text \<open>One run of the loop body, from a state that satisfies the invariant.\<close>

lemma reduceBody_same:
  assumes inv: "reduceInv s" and pend: "rs_pending s = original # rest"
    and w: "rewalkNode (rs_tree s) (rs_knownNonNulls s) original = (t2, original)"
  shows "reduceBody original rest s =
           s\<lparr>rs_tree := t2, rs_visited := rs_visited s @ [original], rs_pending := rest\<rparr>"
    and "reduceInv (reduceBody original rest s)"
proof -
  show eq: "reduceBody original rest s =
           s\<lparr>rs_tree := t2, rs_visited := rs_visited s @ [original], rs_pending := rest\<rparr>"
    using w by (simp add: reduceBody_rewalkNode)
  have o: "original < length (heap (rs_tree s))"
    using inv pend by (auto simp: reduceInv_def validRefs_def)
  note W = rewalkNode_wf[OF _ o w]
  have wf: "wf_tree (rs_tree s)" using inv by (simp add: reduceInv_def)
  have hs: "hasOptional (heap t2 ! n) = hasOptional (heap (rs_tree s) ! n)"
    if "n \<in> set (rs_nodes s)" for n
    using that inv extends_hasOptional[OF W(2)[OF wf]] by (auto simp: reduceInv_def validRefs_def)
  show "reduceInv (reduceBody original rest s)"
    unfolding eq using inv pend W(1,2)[OF wf] hs
    by (auto simp: reduceInv_def validRefs_extends)
qed

lemma reduceBody_diff:
  assumes inv: "reduceInv s" and pend: "rs_pending s = original # rest"
    and w: "rewalkNode (rs_tree s) (rs_knownNonNulls s) original = (t2, c)" and ne: "c \<noteq> original"
  shows "reduceBody original rest s =
           s\<lparr>rs_tree := t2, rs_changed := True,
             rs_pending := (if c \<in> set (rs_visited s) \<union> set rest then rest else rest @ [c]),
             rs_nodes := Set_add (Set_delete (rs_nodes s) original) c,
             rs_knownNonNulls := Set_add (rs_knownNonNulls s) c\<rparr>"
    and "reduceInv (reduceBody original rest s)"
proof -
  show eq: "reduceBody original rest s =
           s\<lparr>rs_tree := t2, rs_changed := True,
             rs_pending := (if c \<in> set (rs_visited s) \<union> set rest then rest else rest @ [c]),
             rs_nodes := Set_add (Set_delete (rs_nodes s) original) c,
             rs_knownNonNulls := Set_add (rs_knownNonNulls s) c\<rparr>"
    using w ne by (simp add: reduceBody_rewalkNode)
  have o: "original < length (heap (rs_tree s))"
    using inv pend by (auto simp: reduceInv_def validRefs_def)
  have wf: "wf_tree (rs_tree s)" using inv by (simp add: reduceInv_def)
  note W = rewalkNode_wf[OF wf o w]
  have hs: "hasOptional (heap t2 ! n) = hasOptional (heap (rs_tree s) ! n)"
    if "n \<in> set (rs_nodes s)" for n
    using that inv extends_hasOptional[OF W(2)] by (auto simp: reduceInv_def validRefs_def)
  have v1: "validRefs t2 (Set_add (Set_delete (rs_nodes s) original) c)"
    using inv W(2,3) by (auto simp: reduceInv_def validRefs_def set_Set_add set_Set_delete
        dest: extends_length)
  have v2: "validRefs t2 (Set_add (rs_knownNonNulls s) c)"
    using inv W(2,3) by (auto simp: reduceInv_def validRefs_def set_Set_add dest: extends_length)
  have d: "distinct (rs_visited s @ (if c \<in> set (rs_visited s) \<union> set rest then rest else rest @ [c]))"
    using inv pend by (auto simp: reduceInv_def)
  have d': "distinct (Set_add (Set_delete (rs_nodes s) original) c)"
    using inv by (intro distinct_Set_add) (simp add: reduceInv_def Set_delete_def distinct_removeAll)
  have no: "original \<notin> set (rs_visited s) \<union> set rest"
    using inv pend by (auto simp: reduceInv_def)
  have s1: "set (rs_visited s @ (if c \<in> set (rs_visited s) \<union> set rest then rest else rest @ [c]))
              \<subseteq> set (Set_add (Set_delete (rs_nodes s) original) c)"
    using inv pend no by (auto simp: reduceInv_def set_Set_add set_Set_delete)
  have s2: "{n \<in> set (Set_add (Set_delete (rs_nodes s) original) c). hasOptional (heap t2 ! n)}
              \<subseteq> set (rs_visited s @ (if c \<in> set (rs_visited s) \<union> set rest then rest else rest @ [c]))"
  proof
    fix n assume n: "n \<in> {n \<in> set (Set_add (Set_delete (rs_nodes s) original) c). hasOptional (heap t2 ! n)}"
    show "n \<in> set (rs_visited s @ (if c \<in> set (rs_visited s) \<union> set rest then rest else rest @ [c]))"
    proof (cases "n = c")
      case True
      then show ?thesis by auto
    next
      case False
      with n have n': "n \<in> set (rs_nodes s)" "n \<noteq> original" "hasOptional (heap t2 ! n)"
        by (auto simp: set_Set_add set_Set_delete)
      with hs[OF n'(1)] inv have "n \<in> set (rs_visited s @ rs_pending s)"
        by (auto simp: reduceInv_def)
      with n'(2) pend show ?thesis by auto
    qed
  qed
  have s3: "set (Set_add (Set_delete (rs_nodes s) original) c) \<subseteq> set (Set_add (rs_knownNonNulls s) c)"
    using inv by (auto simp: reduceInv_def set_Set_add set_Set_delete)
  show "reduceInv (reduceBody original rest s)"
    unfolding eq using W(1) v1 v2 d d' s1 s2 s3 by (simp add: reduceInv_def)
qed

lemma reduceBody_cases:
  assumes inv: "reduceInv s" and pend: "rs_pending s = original # rest"
  obtains (same) t2 where "rewalkNode (rs_tree s) (rs_knownNonNulls s) original = (t2, original)"
      "reduceBody original rest s =
           s\<lparr>rs_tree := t2, rs_visited := rs_visited s @ [original], rs_pending := rest\<rparr>"
    | (diff) t2 c where "rewalkNode (rs_tree s) (rs_knownNonNulls s) original = (t2, c)"
      "c \<noteq> original"
      "reduceBody original rest s =
           s\<lparr>rs_tree := t2, rs_changed := True,
             rs_pending := (if c \<in> set (rs_visited s) \<union> set rest then rest else rest @ [c]),
             rs_nodes := Set_add (Set_delete (rs_nodes s) original) c,
             rs_knownNonNulls := Set_add (rs_knownNonNulls s) c\<rparr>"
proof -
  obtain t2 c where w: "rewalkNode (rs_tree s) (rs_knownNonNulls s) original = (t2, c)" by force
  show thesis
  proof (cases "c = original")
    case True
    with w reduceBody_same(1)[OF inv pend] same show ?thesis by blast
  next
    case False
    with w reduceBody_diff(1)[OF inv pend] diff show ?thesis by blast
  qed
qed

lemma reduceBody_inv:
  "reduceInv s \<Longrightarrow> rs_pending s = original # rest \<Longrightarrow> reduceInv (reduceBody original rest s)"
  by (cases "rewalkNode (rs_tree s) (rs_knownNonNulls s) original")
     (metis reduceBody_same(2) reduceBody_diff(2))


lemma reduceInv_valid:
  assumes "reduceInv s"
  shows "wf_tree (rs_tree s)" and "validRefs (rs_tree s) (rs_visited s)"
    and "validRefs (rs_tree s) (rs_pending s)" and "validRefs (rs_tree s) (rs_nodes s)"
    and "validRefs (rs_tree s) (rs_knownNonNulls s)"
  using assms by (auto simp: reduceInv_def validRefs_def)

text \<open>\<open>reduceLe s s'\<close>: what every run of the loop body keeps between the state before and
  a later state: the trie only grows, the known-non-null set only grows, \<open>changed\<close> is
  never reset, and the weight of \<open>optionalChainNodes\<close> (one more than the number of
  optional entries, summed over the members) never grows and shrinks with a change.\<close>

definition reduceLe :: "ReduceState \<Rightarrow> ReduceState \<Rightarrow> bool" where
  "reduceLe s s' \<longleftrightarrow>
     extends (rs_tree s) (rs_tree s') \<and>
     set (rs_knownNonNulls s) \<subseteq> set (rs_knownNonNulls s') \<and>
     (rs_changed s \<longrightarrow> rs_changed s') \<and>
     weight (rs_tree s') (rs_visited s' @ rs_pending s')
       \<le> weight (rs_tree s) (rs_visited s @ rs_pending s) \<and>
     (rs_changed s' \<and> \<not> rs_changed s \<longrightarrow>
        weight (rs_tree s') (rs_visited s' @ rs_pending s')
          < weight (rs_tree s) (rs_visited s @ rs_pending s))"

lemma reduceLe_refl: "reduceLe s s"
  by (simp add: reduceLe_def extends_refl)

lemma reduceLe_trans: "reduceLe s s' \<Longrightarrow> reduceLe s' s'' \<Longrightarrow> reduceLe s s''"
  unfolding reduceLe_def
  by (intro conjI; (elim conjE)?) (blast intro: extends_trans, blast, blast, linarith, linarith)

lemma reduceBody_measure:
  assumes inv: "reduceInv s" and pend: "rs_pending s = original # rest"
  shows "weight (rs_tree (reduceBody original rest s)) (rs_pending (reduceBody original rest s))
           < weight (rs_tree s) (rs_pending s)"
    and "reduceLe s (reduceBody original rest s)"
proof -
  note V = reduceInv_valid[OF inv]
  have o: "original < length (heap (rs_tree s))"
    using V(3) pend by (simp add: validRefs_def)
  have vr: "validRefs (rs_tree s) rest" using V(3) pend by (simp add: validRefs_def)
  have "weight (rs_tree (reduceBody original rest s)) (rs_pending (reduceBody original rest s))
           < weight (rs_tree s) (rs_pending s) \<and> reduceLe s (reduceBody original rest s)"
  proof (cases rule: reduceBody_cases[OF inv pend])
    case (1 t2)
    note W = rewalkNode_wf[OF V(1) o 1(1)]
    have "weight t2 rest = weight (rs_tree s) rest" by (rule weight_extends[OF W(2) vr])
    moreover have "weight t2 (rs_visited s @ original # rest)
                     = weight (rs_tree s) (rs_visited s @ original # rest)"
      using weight_extends[OF W(2), of "rs_visited s @ original # rest"] V(2,3) pend
      by (simp add: validRefs_append)
    ultimately show ?thesis using W(2) pend unfolding 1(2)
      by (simp add: reduceLe_def weight_Cons)
  next
    case (2 t2 c)
    note W = rewalkNode_wf[OF V(1) o 2(1)]
    have less: "optCount (snd (keyOf t2 c)) < optCount (snd (keyOf (rs_tree s) original))"
      using W(6) 2(2) by simp
    have r: "weight t2 rest = weight (rs_tree s) rest" by (rule weight_extends[OF W(2) vr])
    have v: "weight t2 (rs_visited s) = weight (rs_tree s) (rs_visited s)"
      by (rule weight_extends[OF W(2) V(2)])
    have p: "weight t2 (if c \<in> set (rs_visited s) \<union> set rest then rest else rest @ [c])
               < weight (rs_tree s) (original # rest)"
      using less r by (simp add: weight_append weight_Cons weight_Nil)
    then have "weight t2 (rs_visited s @ (if c \<in> set (rs_visited s) \<union> set rest then rest else rest @ [c]))
               < weight (rs_tree s) (rs_visited s @ original # rest)"
      using v by (simp add: weight_append)
    with p W(2) pend show ?thesis unfolding 2(3)
      by (auto simp: reduceLe_def set_Set_add)
  qed
  then show "weight (rs_tree (reduceBody original rest s)) (rs_pending (reduceBody original rest s))
           < weight (rs_tree s) (rs_pending s)"
    and "reduceLe s (reduceBody original rest s)" by simp_all
qed

text \<open>The \<open>for\<close> loop returns from every state that satisfies the invariant, and whatever
  the loop body keeps holds of the state it returns.\<close>

lemma reduceFor_rule:
  assumes "reduceInv s" and "P s"
    and step: "\<And>s original rest. reduceInv s \<Longrightarrow> P s \<Longrightarrow> rs_pending s = original # rest \<Longrightarrow>
                 P (reduceBody original rest s)"
  shows "\<exists>s'. reduceFor s = Some s' \<and> reduceInv s' \<and> P s' \<and> rs_pending s' = []"
  using assms(1,2)
proof (induction "weight (rs_tree s) (rs_pending s)" arbitrary: s rule: less_induct)
  case less
  show ?case
  proof (cases "rs_pending s")
    case Nil
    then have "reduceFor s = Some s" by (subst reduceFor.simps) simp
    with less.prems Nil show ?thesis by simp
  next
    case (Cons original rest)
    have eq: "reduceFor s = reduceFor (reduceBody original rest s)"
      using Cons by (subst reduceFor.simps) simp
    from less.hyps[OF reduceBody_measure(1)[OF less.prems(1) Cons]
        reduceBody_inv[OF less.prems(1) Cons] step[OF less.prems Cons]]
    show ?thesis unfolding eq .
  qed
qed

lemma reduceFor_total:
  assumes inv: "reduceInv s"
  obtains s' where "reduceFor s = Some s'" "reduceInv s'" "rs_pending s' = []" "reduceLe s s'"
proof -
  have "\<exists>s'. reduceFor s = Some s' \<and> reduceInv s' \<and> reduceLe s s' \<and> rs_pending s' = []"
  proof (rule reduceFor_rule[OF inv, where P = "reduceLe s"])
    show "reduceLe s s" by (rule reduceLe_refl)
  next
    fix s1 original rest
    assume "reduceInv s1" "reduceLe s s1" "rs_pending s1 = original # rest"
    then show "reduceLe s (reduceBody original rest s1)"
      using reduceBody_measure(2) reduceLe_trans by blast
  qed
  with that show thesis by blast
qed


text \<open>The state in which the \<open>do\<close> loop starts a pass of the \<open>for\<close> loop.\<close>

definition passStart :: "Tree \<Rightarrow> NodeRef list \<Rightarrow> NodeRef list \<Rightarrow> NodeRef list \<Rightarrow> ReduceState" where
  "passStart t optionalChainNodes nodes knownNonNulls =
     \<lparr>rs_tree = t, rs_visited = [], rs_pending = optionalChainNodes, rs_nodes = nodes,
      rs_knownNonNulls = knownNonNulls, rs_changed = False\<rparr>"

lemma reduceDoWhile_unfold:
  "reduceDoWhile t ocn nodes known =
     (case reduceFor (passStart t ocn nodes known) of
        None \<Rightarrow> None
      | Some s \<Rightarrow>
          if rs_changed s
          then reduceDoWhile (rs_tree s) (rs_visited s) (rs_nodes s) (rs_knownNonNulls s)
          else Some (rs_nodes s, rs_tree s))"
  by (subst reduceDoWhile.simps) (simp add: passStart_def)

lemma passStart_next:
  "reduceInv s \<Longrightarrow> rs_pending s = [] \<Longrightarrow>
     reduceInv (passStart (rs_tree s) (rs_visited s) (rs_nodes s) (rs_knownNonNulls s))"
  by (simp add: reduceInv_def passStart_def)

text \<open>The \<open>do\<close> loop returns from every start that satisfies the invariant; it returns what
  a last pass without change left, and whatever the passes keep holds at the start of
  that last pass.\<close>

lemma reduceDoWhile_rule:
  assumes "reduceInv (passStart t ocn nodes known)" and "Q t ocn nodes known"
    and pass: "\<And>t ocn nodes known s'.
        reduceInv (passStart t ocn nodes known) \<Longrightarrow> Q t ocn nodes known \<Longrightarrow>
        reduceFor (passStart t ocn nodes known) = Some s' \<Longrightarrow> reduceInv s' \<Longrightarrow>
        rs_pending s' = [] \<Longrightarrow> rs_changed s' \<Longrightarrow>
        Q (rs_tree s') (rs_visited s') (rs_nodes s') (rs_knownNonNulls s')"
  shows "\<exists>t0 ocn0 nodes0 known0 s'.
           Q t0 ocn0 nodes0 known0 \<and> reduceInv (passStart t0 ocn0 nodes0 known0) \<and>
           reduceFor (passStart t0 ocn0 nodes0 known0) = Some s' \<and> \<not> rs_changed s' \<and>
           reduceInv s' \<and> rs_pending s' = [] \<and>
           reduceDoWhile t ocn nodes known = Some (rs_nodes s', rs_tree s')"
  using assms(1,2)
proof (induction "weight t ocn" arbitrary: t ocn nodes known rule: less_induct)
  case less
  obtain s' where s': "reduceFor (passStart t ocn nodes known) = Some s'" "reduceInv s'"
      "rs_pending s' = []" "reduceLe (passStart t ocn nodes known) s'"
    using reduceFor_total[OF less.prems(1)] by blast
  show ?case
  proof (cases "rs_changed s'")
    case False
    then have "reduceDoWhile t ocn nodes known = Some (rs_nodes s', rs_tree s')"
      using s'(1) by (subst reduceDoWhile_unfold) simp
    with less.prems s' False show ?thesis by blast
  next
    case True
    have eq: "reduceDoWhile t ocn nodes known =
                reduceDoWhile (rs_tree s') (rs_visited s') (rs_nodes s') (rs_knownNonNulls s')"
      using s'(1) True by (subst reduceDoWhile_unfold) simp
    have lt: "weight (rs_tree s') (rs_visited s') < weight t ocn"
      using s'(3,4) True by (simp add: reduceLe_def passStart_def)
    from less.hyps[OF lt passStart_next[OF s'(2,3)] pass[OF less.prems s'(1,2,3) True]]
    show ?thesis unfolding eq .
  qed
qed

lemma reduceInv_start:
  assumes "wf_tree t" "validRefs t nodes" "distinct nodes"
  shows "reduceInv (passStart t (Set_filter nodes (\<lambda>n. hasOptional (heap t ! n))) nodes nodes)"
  using assms by (auto simp: reduceInv_def passStart_def Set_filter_def)


lemma reduce_total:
  assumes wf: "wf_tree t" and v: "validRefs t nodes" and d: "distinct nodes"
  obtains nodes' t' where "reduceMaybeOptionalChains nodes t = Some (nodes', t')"
    "wf_tree t'" "extends t t'" "validRefs t' nodes'" "distinct nodes'"
proof (cases "Set_filter nodes (\<lambda>n. hasOptional (heap t ! n)) = []")
  case True
  then have "reduceMaybeOptionalChains nodes t = Some (nodes, t)"
    by (simp add: reduceMaybeOptionalChains_def)
  with that wf v d extends_refl show ?thesis by blast
next
  case False
  let ?ocn = "Set_filter nodes (\<lambda>n. hasOptional (heap t ! n))"
  have "\<exists>t0 ocn0 nodes0 known0 s'.
           extends t t0 \<and> reduceInv (passStart t0 ocn0 nodes0 known0) \<and>
           reduceFor (passStart t0 ocn0 nodes0 known0) = Some s' \<and> \<not> rs_changed s' \<and>
           reduceInv s' \<and> rs_pending s' = [] \<and>
           reduceDoWhile t ?ocn nodes nodes = Some (rs_nodes s', rs_tree s')"
  proof (rule reduceDoWhile_rule[OF reduceInv_start[OF wf v d],
        where Q = "\<lambda>t0 ocn0 nodes0 known0. extends t t0"])
    show "extends t t" by (rule extends_refl)
  next
    fix t1 ocn1 nodes1 known1 s'
    assume "reduceInv (passStart t1 ocn1 nodes1 known1)" "extends t t1"
      "reduceFor (passStart t1 ocn1 nodes1 known1) = Some s'"
    then show "extends t (rs_tree s')"
      using reduceFor_total[of "passStart t1 ocn1 nodes1 known1"]
      by (metis extends_trans reduceLe_def option.inject ReduceState.select_convs(1) passStart_def)
  qed
  then obtain t0 ocn0 nodes0 known0 s' where
    r: "extends t t0" "reduceInv (passStart t0 ocn0 nodes0 known0)"
       "reduceFor (passStart t0 ocn0 nodes0 known0) = Some s'" "reduceInv s'"
       "reduceDoWhile t ?ocn nodes nodes = Some (rs_nodes s', rs_tree s')" by blast
  obtain s'' where "reduceFor (passStart t0 ocn0 nodes0 known0) = Some s''"
    "reduceLe (passStart t0 ocn0 nodes0 known0) s''"
    using reduceFor_total[OF r(2)] by blast
  with r(3) have "extends t0 (rs_tree s')" by (simp add: reduceLe_def passStart_def)
  with r(1) have e: "extends t (rs_tree s')" by (rule extends_trans)
  have "reduceMaybeOptionalChains nodes t = Some (rs_nodes s', rs_tree s')"
    using False r(5) by (simp add: reduceMaybeOptionalChains_def Let_def)
  moreover have "wf_tree (rs_tree s')" "validRefs (rs_tree s') (rs_nodes s')" "distinct (rs_nodes s')"
    using r(4) by (simp_all add: reduceInv_def)
  ultimately show ?thesis using that e by blast
qed

lemma wf_ex_tree: "wf_tree ex_tree"
  unfolding ex_tree_def
  by (metis property_wf(1) wf_emptyTree prod.collapse)

lemma length_ex_tree: "length (heap ex_tree) = 4"
  by (simp add: ex_tree_def ex_dep_def ex_entry_def ex_ident_def getOrCreateProperty_def
      getOrCreateIdentifier_def getOrCreatePropertyEntry_def emptyTree_def Let_def)

text \<open>
  Claim C7. The canonicalizer returns for every set of nodes of a well-formed trie (a list
  without duplicates of references into the trie's store): the \<open>for\<close> loop returns in every
  pass although it appends to the set it iterates, and the \<open>do\<close> loop reaches a pass
  without change. (No result would be \<open>None\<close>.)
\<close>

theorem C7_canonicalizer_terminates:
  assumes "wf_tree t" and "validRefs t nodes" and "distinct nodes"
  shows "\<exists>nodes' t'. reduceMaybeOptionalChains nodes t = Some (nodes', t')"
  using reduce_total[OF assms] by blast

theorem C7_canonicalizer_terminates_witness:
  "wf_tree ex_tree \<and> validRefs ex_tree [0, 3] \<and> distinct [0, 3 :: nat] \<and>
   (\<exists>nodes' t'. reduceMaybeOptionalChains [0, 3] ex_tree = Some (nodes', t'))"
proof -
  have v: "validRefs ex_tree [0, 3]" by (simp add: validRefs_def length_ex_tree)
  have d: "distinct [0, 3 :: nat]" by simp
  from C7_canonicalizer_terminates[OF wf_ex_tree v d] wf_ex_tree v d show ?thesis by simp
qed




subsection \<open>The walk in terms of keys\<close>

text \<open>
  The rewriting of a path as the specification words it, on keys instead of nodes: going
  along the path with the prefix \<open>acc\<close> rewritten so far, an entry becomes unconditional
  exactly when it is optional and the key of the prefix is the key of a known-non-null node.
\<close>

fun rewritePath ::
    "DepKey set \<Rightarrow> IdentifierId \<Rightarrow> DependencyPathEntry list \<Rightarrow> DependencyPathEntry list
       \<Rightarrow> DependencyPathEntry list" where
  "rewritePath KK x acc [] = []"
| "rewritePath KK x acc (e # es) =
     (let e' = (if optional e \<and> (x, acc) \<in> KK then \<lparr>property = property e, optional = False\<rparr>
                else e)
      in e' # rewritePath KK x (acc @ [e']) es)"

lemma member_iff_key:
  assumes "wf_tree t" "i < length (heap t)" "validRefs t K"
  shows "i \<in> set K \<longleftrightarrow> keyOf t i \<in> keyOf t ` set K"
proof
  assume "keyOf t i \<in> keyOf t ` set K"
  then obtain k where k: "k \<in> set K" "keyOf t i = keyOf t k" by auto
  with assms(3) have "k < length (heap t)" by (simp add: validRefs_def)
  from keyOf_inj[OF assms(1,2) this k(2)] k(1) show "i \<in> set K" by simp
qed simp

lemma keys_extends:
  "extends t t' \<Longrightarrow> validRefs t K \<Longrightarrow> keyOf t' ` set K = keyOf t ` set K"
  by (auto simp: validRefs_def extends_keyOf intro!: image_cong)

lemma rewalk_as_entries:
  "wf_tree t \<Longrightarrow> i < length (heap t) \<Longrightarrow> validRefs t K \<Longrightarrow>
     rewalk t K i es =
       getOrCreateEntries t i
         (rewritePath (keyOf t ` set K) (fst (keyOf t i)) (snd (keyOf t i)) es)"
proof (induction es arbitrary: t i)
  case Nil
  then show ?case by simp
next
  case (Cons e es)
  define e' where "e' = (if optional e \<and> i \<in> set K
                          then \<lparr>property = property e, optional = False\<rparr> else e)"
  have e'_key: "e' = (if optional e \<and> (fst (keyOf t i), snd (keyOf t i)) \<in> keyOf t ` set K
                      then \<lparr>property = property e, optional = False\<rparr> else e)"
    using member_iff_key[OF Cons.prems] by (simp add: e'_def)
  obtain t1 c where s1: "getOrCreatePropertyEntry t i e' = (t1, c)" by force
  note E = entry_wf[OF Cons.prems(1,2) s1]
  have K1: "validRefs t1 K" by (rule validRefs_extends[OF E(2) Cons.prems(3)])
  have "rewalk t K i (e # es) = rewalk t1 K c es"
    using s1 by (simp add: e'_def Let_def)
  also have "\<dots> = getOrCreateEntries t1 c
         (rewritePath (keyOf t1 ` set K) (fst (keyOf t1 c)) (snd (keyOf t1 c)) es)"
    by (rule Cons.IH[OF E(1) E(3) K1])
  also have "\<dots> = getOrCreateEntries t1 c
         (rewritePath (keyOf t ` set K) (fst (keyOf t i)) (snd (keyOf t i) @ [e']) es)"
    using E(4) keys_extends[OF E(2) Cons.prems(3)] by simp
  also have "\<dots> = getOrCreateEntries t i
         (rewritePath (keyOf t ` set K) (fst (keyOf t i)) (snd (keyOf t i)) (e # es))"
    using s1 e'_key by (simp add: Let_def)
  finally show ?case .
qed

lemma rewalkNode_as_entries:
  assumes wf: "wf_tree t" and i: "i < length (heap t)" and K: "validRefs t K"
    and r: "roots t (fst (keyOf t i)) = Some r"
  shows "rewalkNode t K i =
           getOrCreateEntries t r (rewritePath (keyOf t ` set K) (fst (keyOf t i)) [] (snd (keyOf t i)))"
proof -
  from wf_rootD[OF wf r] have rr: "r < length (heap t)" "keyOf t r = (fst (keyOf t i), [])"
    by simp_all
  have "getOrCreateIdentifier t (identifier (fullPath (heap t ! i))) = (t, r)"
    using r by (simp add: getOrCreateIdentifier_def keyOf_def)
  then have "rewalkNode t K i = rewalk t K r (snd (keyOf t i))"
    by (simp add: rewalkNode_def Let_def keyOf_def)
  with rewalk_as_entries[OF wf rr(1) K, of "snd (keyOf t i)"] rr(2) show ?thesis by simp
qed

text \<open>The key of the node at which the walk of a member ends.\<close>

lemma rewalkNode_key:
  assumes wf: "wf_tree t" and i: "i < length (heap t)" and K: "validRefs t K"
    and res: "rewalkNode t K i = (t', j)"
  shows "keyOf t' j =
           (fst (keyOf t i), rewritePath (keyOf t ` set K) (fst (keyOf t i)) [] (snd (keyOf t i)))"
proof -
  obtain r where r: "roots t (fst (keyOf t i)) = Some r" "r < length (heap t)"
      "keyOf t r = (fst (keyOf t i), [])"
    using wf_root_of[OF wf i] by blast
  from res rewalkNode_as_entries[OF wf i K r(1)]
  have "getOrCreateEntries t r
          (rewritePath (keyOf t ` set K) (fst (keyOf t i)) [] (snd (keyOf t i))) = (t', j)"
    by simp
  from entries_wf[OF wf r(2) this] r(3) show ?thesis by simp
qed

text \<open>A member is \<open>settled\<close> under a known-non-null set when its walk rewrites nothing.\<close>

definition settled :: "Tree \<Rightarrow> NodeRef list \<Rightarrow> NodeRef \<Rightarrow> bool" where
  "settled t K i \<longleftrightarrow>
     rewritePath (keyOf t ` set K) (fst (keyOf t i)) [] (snd (keyOf t i)) = snd (keyOf t i)"

lemma rewalkNode_settled:
  assumes wf: "wf_tree t" and i: "i < length (heap t)" and K: "validRefs t K"
    and s: "settled t K i"
  shows "rewalkNode t K i = (t, i)"
proof -
  obtain r where r: "roots t (fst (keyOf t i)) = Some r" "r < length (heap t)"
      "keyOf t r = (fst (keyOf t i), [])" "lookupPath t r (snd (keyOf t i)) = Some i"
    using wf_root_of[OF wf i] by blast
  from rewalkNode_as_entries[OF wf i K r(1)] s entries_found[OF r(4)]
  show ?thesis by (simp add: settled_def)
qed

lemma rewalkNode_same_settled:
  assumes wf: "wf_tree t" and i: "i < length (heap t)" and K: "validRefs t K"
    and res: "rewalkNode t K i = (t', i)"
  shows "settled t K i"
proof -
  note W = rewalkNode_wf[OF wf i res]
  from rewalkNode_key[OF wf i K res] extends_keyOf[OF W(2) i]
  have "snd (keyOf t i) =
          rewritePath (keyOf t ` set K) (fst (keyOf t i)) [] (snd (keyOf t i))"
    by (metis snd_conv)
  then show ?thesis by (simp add: settled_def)
qed

lemma rewritePath_mono:
  "rewritePath KK x acc es = es \<Longrightarrow> KK' \<subseteq> KK \<Longrightarrow> rewritePath KK' x acc es = es"
proof (induction es arbitrary: acc)
  case Nil
  then show ?case by simp
next
  case (Cons e es)
  have ne: "\<lparr>property = property e, optional = False\<rparr> \<noteq> e" if "optional e"
    using that by (metis DependencyPathEntry.select_convs(2))
  from Cons.prems(1) ne have a: "\<not> (optional e \<and> (x, acc) \<in> KK)"
    by (auto simp: Let_def split: if_splits)
  with Cons.prems(1) have "rewritePath KK x (acc @ [e]) es = es" by (simp add: Let_def)
  from Cons.IH[OF this Cons.prems(2)] a Cons.prems(2) show ?case by (auto simp: Let_def)
qed

lemma settled_mono: "settled t K i \<Longrightarrow> set K' \<subseteq> set K \<Longrightarrow> settled t K' i"
  unfolding settled_def by (erule rewritePath_mono) auto

lemma rewritePath_no_optional:
  "\<forall>e \<in> set es. \<not> optional e \<Longrightarrow> rewritePath KK x acc es = es"
  by (induction es arbitrary: acc) (auto simp: Let_def)

lemma settled_no_optional:
  "wf_tree t \<Longrightarrow> i < length (heap t) \<Longrightarrow> \<not> hasOptional (heap t ! i) \<Longrightarrow> settled t K i"
  by (simp add: settled_def wf_hasOptionalD rewritePath_no_optional)


subsection \<open>A pass without change\<close>

lemma reduceFor_settled:
  "reduceInv s \<Longrightarrow> \<forall>o' \<in> set (rs_pending s). settled (rs_tree s) (rs_knownNonNulls s) o' \<Longrightarrow>
     reduceFor s = Some (s\<lparr>rs_visited := rs_visited s @ rs_pending s, rs_pending := []\<rparr>)"
proof (induction "rs_pending s" arbitrary: s)
  case Nil
  then show ?case by (subst reduceFor.simps) simp
next
  case (Cons original rest)
  note V = reduceInv_valid[OF Cons.prems(1)]
  have pend: "rs_pending s = original # rest" using Cons.hyps(2) by simp
  have o: "original < length (heap (rs_tree s))" using V(3) pend by (simp add: validRefs_def)
  have "settled (rs_tree s) (rs_knownNonNulls s) original" using Cons.prems(2) pend by simp
  then have w: "rewalkNode (rs_tree s) (rs_knownNonNulls s) original = (rs_tree s, original)"
    by (rule rewalkNode_settled[OF V(1) o V(5)])
  let ?s1 = "s\<lparr>rs_visited := rs_visited s @ [original], rs_pending := rest\<rparr>"
  have b: "reduceBody original rest s = ?s1"
    using reduceBody_same(1)[OF Cons.prems(1) pend w] by simp
  have inv1: "reduceInv ?s1" using reduceBody_inv[OF Cons.prems(1) pend] b by simp
  have "reduceFor s = reduceFor ?s1" using pend b by (subst reduceFor.simps) simp
  also have "\<dots> = Some (?s1\<lparr>rs_visited := rs_visited ?s1 @ rs_pending ?s1, rs_pending := []\<rparr>)"
    using Cons.prems(2) pend by (intro Cons.hyps(1)[OF _ inv1]) simp_all
  finally show ?case using pend by simp
qed

lemma reduceBody_changed:
  "reduceInv s \<Longrightarrow> rs_pending s = original # rest \<Longrightarrow> rs_changed s \<Longrightarrow>
     rs_changed (reduceBody original rest s)"
  using reduceBody_measure(2) by (auto simp: reduceLe_def)

lemma reduceFor_unchanged:
  assumes inv: "reduceInv s0" and res: "reduceFor s0 = Some s'" and nc: "\<not> rs_changed s'"
  shows "\<forall>o' \<in> set (rs_pending s0). settled (rs_tree s0) (rs_knownNonNulls s0) o'"
    and "s' = s0\<lparr>rs_visited := rs_visited s0 @ rs_pending s0, rs_pending := []\<rparr>"
proof -
  let ?P = "\<lambda>s. rs_changed s \<or>
     (rs_tree s = rs_tree s0 \<and> rs_knownNonNulls s = rs_knownNonNulls s0 \<and>
      rs_visited s @ rs_pending s = rs_visited s0 @ rs_pending s0 \<and>
      (\<forall>o' \<in> set (rs_visited s). o' \<in> set (rs_visited s0) \<or>
          settled (rs_tree s0) (rs_knownNonNulls s0) o'))"
  have "\<exists>s1. reduceFor s0 = Some s1 \<and> reduceInv s1 \<and> ?P s1 \<and> rs_pending s1 = []"
  proof (rule reduceFor_rule[OF inv, where P = ?P])
    show "?P s0" by simp
  next
    fix s original rest
    assume i: "reduceInv s" and P: "?P s" and pend: "rs_pending s = original # rest"
    show "?P (reduceBody original rest s)"
    proof (cases "rs_changed s")
      case True
      then show ?thesis using reduceBody_changed[OF i pend] by simp
    next
      case False
      note V = reduceInv_valid[OF i]
      have o: "original < length (heap (rs_tree s))" using V(3) pend by (simp add: validRefs_def)
      show ?thesis
      proof (cases rule: reduceBody_cases[OF i pend])
        case (1 t2)
        have st: "settled (rs_tree s) (rs_knownNonNulls s) original"
          by (rule rewalkNode_same_settled[OF V(1) o V(5) 1(1)])
        from rewalkNode_settled[OF V(1) o V(5) st] 1(1) have "t2 = rs_tree s" by simp
        with P False st pend show ?thesis unfolding 1(2) by auto
      next
        case (2 t2 c)
        then show ?thesis by simp
      qed
    qed
  qed
  with res nc have s': "reduceInv s'" "rs_pending s' = []" "rs_tree s' = rs_tree s0"
    "rs_knownNonNulls s' = rs_knownNonNulls s0" "rs_visited s' = rs_visited s0 @ rs_pending s0"
    "\<forall>o' \<in> set (rs_visited s'). o' \<in> set (rs_visited s0) \<or>
          settled (rs_tree s0) (rs_knownNonNulls s0) o'"
    by auto
  have "distinct (rs_visited s0 @ rs_pending s0)" using inv by (simp add: reduceInv_def)
  with s'(5,6) show a: "\<forall>o' \<in> set (rs_pending s0). settled (rs_tree s0) (rs_knownNonNulls s0) o'"
    by auto
  from reduceFor_settled[OF inv a] res
  show "s' = s0\<lparr>rs_visited := rs_visited s0 @ rs_pending s0, rs_pending := []\<rparr>" by simp
qed

text \<open>What the canonicalizer returns: every member's walk, under the returned set itself as
  the known-non-null set, ends at the member and creates nothing; so canonicalizing the
  result again returns it as it is.\<close>

lemma reduce_fixpoint_rule:
  assumes wf: "wf_tree t" and v: "validRefs t nodes" and d: "distinct nodes"
    and Q: "Q t nodes nodes"
    and pass: "\<And>t ocn nodes known s'.
        reduceInv (passStart t ocn nodes known) \<Longrightarrow> Q t nodes known \<Longrightarrow>
        reduceFor (passStart t ocn nodes known) = Some s' \<Longrightarrow> reduceInv s' \<Longrightarrow>
        rs_pending s' = [] \<Longrightarrow> rs_changed s' \<Longrightarrow>
        Q (rs_tree s') (rs_nodes s') (rs_knownNonNulls s')"
  shows "\<exists>nodes' t' known'.
           reduceMaybeOptionalChains nodes t = Some (nodes', t') \<and>
           wf_tree t' \<and> validRefs t' nodes' \<and> distinct nodes' \<and>
           validRefs t' known' \<and> set nodes' \<subseteq> set known' \<and> Q t' nodes' known' \<and>
           (\<forall>n \<in> set nodes'. settled t' known' n)"
proof (cases "Set_filter nodes (\<lambda>n. hasOptional (heap t ! n)) = []")
  case True
  then have r: "reduceMaybeOptionalChains nodes t = Some (nodes, t)"
    by (simp add: reduceMaybeOptionalChains_def)
  have "\<forall>n \<in> set nodes. \<not> hasOptional (heap t ! n)"
    using True by (auto simp: Set_filter_def filter_empty_conv)
  then have "\<forall>n \<in> set nodes. settled t nodes n"
    using v wf by (auto simp: validRefs_def intro: settled_no_optional)
  with r wf v d Q show ?thesis by blast
next
  case False
  let ?ocn = "Set_filter nodes (\<lambda>n. hasOptional (heap t ! n))"
  have "\<exists>t0 ocn0 nodes0 known0 s'.
           Q t0 nodes0 known0 \<and> reduceInv (passStart t0 ocn0 nodes0 known0) \<and>
           reduceFor (passStart t0 ocn0 nodes0 known0) = Some s' \<and> \<not> rs_changed s' \<and>
           reduceInv s' \<and> rs_pending s' = [] \<and>
           reduceDoWhile t ?ocn nodes nodes = Some (rs_nodes s', rs_tree s')"
    by (rule reduceDoWhile_rule[OF reduceInv_start[OF wf v d],
          where Q = "\<lambda>t0 ocn0 nodes0 known0. Q t0 nodes0 known0"]) (fact Q, fact pass)
  then obtain t0 ocn0 nodes0 known0 s' where
    r: "Q t0 nodes0 known0" "reduceInv (passStart t0 ocn0 nodes0 known0)"
       "reduceFor (passStart t0 ocn0 nodes0 known0) = Some s'" "\<not> rs_changed s'"
       "reduceDoWhile t ?ocn nodes nodes = Some (rs_nodes s', rs_tree s')" by blast
  note U = reduceFor_unchanged[OF r(2,3,4)]
  have s': "rs_nodes s' = nodes0" "rs_tree s' = t0" using U(2) by (simp_all add: passStart_def)
  have res: "reduceMaybeOptionalChains nodes t = Some (nodes0, t0)"
    using False r(5) s' by (simp add: reduceMaybeOptionalChains_def Let_def)
  have I: "wf_tree t0" "validRefs t0 nodes0" "distinct nodes0" "validRefs t0 known0"
    "set nodes0 \<subseteq> set known0" "{n \<in> set nodes0. hasOptional (heap t0 ! n)} \<subseteq> set ocn0"
    using r(2) by (simp_all add: reduceInv_def passStart_def)
  have "\<forall>n \<in> set nodes0. settled t0 known0 n"
  proof
    fix n assume n: "n \<in> set nodes0"
    show "settled t0 known0 n"
    proof (cases "hasOptional (heap t0 ! n)")
      case True
      with n I(6) have "n \<in> set ocn0" by auto
      with U(1) show ?thesis by (simp add: passStart_def)
    next
      case False
      with n I(1,2) show ?thesis by (auto simp: validRefs_def intro: settled_no_optional)
    qed
  qed
  with res I r(1) show ?thesis by blast
qed

lemma reduce_settled_noop:
  assumes wf: "wf_tree t" and v: "validRefs t nodes" and d: "distinct nodes"
    and st: "\<forall>n \<in> set nodes. settled t nodes n"
  shows "reduceMaybeOptionalChains nodes t = Some (nodes, t)"
proof (cases "Set_filter nodes (\<lambda>n. hasOptional (heap t ! n)) = []")
  case True
  then show ?thesis by (simp add: reduceMaybeOptionalChains_def)
next
  case False
  let ?ocn = "Set_filter nodes (\<lambda>n. hasOptional (heap t ! n))"
  have "reduceFor (passStart t ?ocn nodes nodes) =
          Some ((passStart t ?ocn nodes nodes)\<lparr>rs_visited := [] @ ?ocn, rs_pending := []\<rparr>)"
    using reduceFor_settled[OF reduceInv_start[OF wf v d]] st
    by (simp add: passStart_def Set_filter_def)
  then have "reduceDoWhile t ?ocn nodes nodes = Some (nodes, t)"
    by (subst reduceDoWhile_unfold) (simp add: passStart_def)
  with False show ?thesis by (simp add: reduceMaybeOptionalChains_def Let_def)
qed





lemma reduce_fixpoint_step_rule:
  assumes wf: "wf_tree t" and v: "validRefs t nodes" and d: "distinct nodes"
    and Q: "Q t nodes nodes"
    and step: "\<And>s original rest.
        reduceInv s \<Longrightarrow> Q (rs_tree s) (rs_nodes s) (rs_knownNonNulls s) \<Longrightarrow>
        rs_pending s = original # rest \<Longrightarrow>
        Q (rs_tree (reduceBody original rest s)) (rs_nodes (reduceBody original rest s))
          (rs_knownNonNulls (reduceBody original rest s))"
  shows "\<exists>nodes' t' known'.
           reduceMaybeOptionalChains nodes t = Some (nodes', t') \<and>
           wf_tree t' \<and> validRefs t' nodes' \<and> distinct nodes' \<and>
           validRefs t' known' \<and> set nodes' \<subseteq> set known' \<and> Q t' nodes' known' \<and>
           (\<forall>n \<in> set nodes'. settled t' known' n)"
proof (rule reduce_fixpoint_rule[OF wf v d, where Q = Q, OF Q])
  fix t1 ocn nodes1 known s'
  assume i: "reduceInv (passStart t1 ocn nodes1 known)" and q: "Q t1 nodes1 known"
    and r: "reduceFor (passStart t1 ocn nodes1 known) = Some s'"
  have "\<exists>s1. reduceFor (passStart t1 ocn nodes1 known) = Some s1 \<and> reduceInv s1 \<and>
          Q (rs_tree s1) (rs_nodes s1) (rs_knownNonNulls s1) \<and> rs_pending s1 = []"
    by (rule reduceFor_rule[OF i, where P = "\<lambda>s. Q (rs_tree s) (rs_nodes s) (rs_knownNonNulls s)"])
       (use q in \<open>simp add: passStart_def\<close>, fact step)
  with r show "Q (rs_tree s') (rs_nodes s') (rs_knownNonNulls s')" by auto
qed

lemma rewritePath_target:
  "(x, acc @ p) \<in> KK \<Longrightarrow> \<forall>e \<in> set p. \<not> optional e \<Longrightarrow> \<forall>e \<in> set q. \<not> optional e \<Longrightarrow>
     rewritePath KK x acc (p @ \<lparr>property = b, optional = True\<rparr> # q)
       = p @ \<lparr>property = b, optional = False\<rparr> # q"
proof (induction p arbitrary: acc)
  case Nil
  then show ?case by (simp add: Let_def rewritePath_no_optional)
next
  case (Cons e p)
  from Cons.prems(1) have "(x, (acc @ [e]) @ p) \<in> KK" by simp
  from Cons.IH[OF this] Cons.prems(2,3) show ?case by (simp add: Let_def)
qed

text \<open>A member without an optional entry is never replaced.\<close>

lemma reduceBody_keeps:
  assumes inv: "reduceInv s" and pend: "rs_pending s = original # rest"
    and m: "m \<in> set (rs_nodes s)" and st: "settled (rs_tree s) (rs_knownNonNulls s) m"
  shows "m \<in> set (rs_nodes (reduceBody original rest s))"
proof (cases rule: reduceBody_cases[OF inv pend])
  case (1 t2)
  with m show ?thesis by simp
next
  case (2 t2 c)
  note V = reduceInv_valid[OF inv]
  have ml: "m < length (heap (rs_tree s))" using V(4) m by (simp add: validRefs_def)
  from rewalkNode_settled[OF V(1) ml V(5) st] 2(1,2) have "m \<noteq> original" by auto
  with m show ?thesis unfolding 2(3) by (simp add: set_Set_add set_Set_delete)
qed

lemma reduceBody_extends:
  assumes inv: "reduceInv s" and pend: "rs_pending s = original # rest"
  shows "extends (rs_tree s) (rs_tree (reduceBody original rest s))"
  using reduceBody_measure(2)[OF inv pend] by (simp add: reduceLe_def)




lemma settled_key_no_optional:
  "keyOf t i = (x, p) \<Longrightarrow> \<forall>e \<in> set p. \<not> optional e \<Longrightarrow> settled t K i"
  by (simp add: settled_def rewritePath_no_optional)

text \<open>
  Claim C2, amended. When the candidate set holds the node of an unconditional path \<open>P\<close>
  and the node of \<open>P?.b.q\<close> (the optional access made on \<open>P\<close> itself, then unconditional
  entries \<open>q\<close>; for instance \<open>a\<close> and \<open>a?.b.c\<close>, or \<open>a.b\<close> and \<open>a.b?.c\<close>), the canonicalizer
  returns a set without the node of \<open>P?.b.q\<close> and with the node of the unconditional
  path \<open>P.b.q\<close>, still holding the node of \<open>P\<close>; canonicalizing the returned set again
  returns it and the trie as they are.
\<close>

theorem C2_optional_collapse:
  assumes wf: "wf_tree t" and v: "validRefs t nodes" and d: "distinct nodes"
    and rp: "rp \<in> set nodes" "keyOf t rp = (x, p)" "\<forall>e \<in> set p. \<not> optional e"
    and n: "n \<in> set nodes" "keyOf t n = (x, p @ \<lparr>property = b, optional = True\<rparr> # q)"
      "\<forall>e \<in> set q. \<not> optional e"
  shows "\<exists>nodes' t' m.
           reduceMaybeOptionalChains nodes t = Some (nodes', t') \<and>
           n \<notin> set nodes' \<and> m \<in> set nodes' \<and>
           keyOf t' m = (x, p @ \<lparr>property = b, optional = False\<rparr> # q) \<and>
           rp \<in> set nodes' \<and>
           reduceMaybeOptionalChains nodes' t' = Some (nodes', t')"
proof -
  let ?src = "p @ \<lparr>property = b, optional = True\<rparr> # q"
  let ?tgt = "p @ \<lparr>property = b, optional = False\<rparr> # q"
  let ?Q = "\<lambda>t1 nodes1 (known1 :: NodeRef list).
      extends t t1 \<and> rp \<in> set nodes1 \<and>
      (n \<in> set nodes1 \<or> (\<exists>m \<in> set nodes1. keyOf t1 m = (x, ?tgt)))"
  have rpl: "rp < length (heap t)" and nl: "n < length (heap t)"
    using v rp(1) n(1) by (simp_all add: validRefs_def)
  have tgt_no: "\<forall>e \<in> set ?tgt. \<not> optional e" using rp(3) n(3) by auto
  have "\<exists>nodes' t' known'.
           reduceMaybeOptionalChains nodes t = Some (nodes', t') \<and>
           wf_tree t' \<and> validRefs t' nodes' \<and> distinct nodes' \<and>
           validRefs t' known' \<and> set nodes' \<subseteq> set known' \<and> ?Q t' nodes' known' \<and>
           (\<forall>n \<in> set nodes'. settled t' known' n)"
  proof (rule reduce_fixpoint_step_rule[OF wf v d, where Q = ?Q])
    show "?Q t nodes nodes" using rp(1) n(1) by (simp add: extends_refl)
  next
    fix s original rest
    assume inv: "reduceInv s" and Q: "?Q (rs_tree s) (rs_nodes s) (rs_knownNonNulls s)"
      and pend: "rs_pending s = original # rest"
    let ?s1 = "reduceBody original rest s"
    note V = reduceInv_valid[OF inv]
    from Q have ext: "extends t (rs_tree s)" and rps: "rp \<in> set (rs_nodes s)" by simp_all
    have e1: "extends (rs_tree s) (rs_tree ?s1)" by (rule reduceBody_extends[OF inv pend])
    have ext1: "extends t (rs_tree ?s1)" by (rule extends_trans[OF ext e1])
    have krp: "keyOf (rs_tree s) rp = (x, p)" using extends_keyOf[OF ext rpl] rp(2) by simp
    have kn: "keyOf (rs_tree s) n = (x, ?src)" using extends_keyOf[OF ext nl] n(2) by simp
    have rp1: "rp \<in> set (rs_nodes ?s1)"
      by (rule reduceBody_keeps[OF inv pend rps settled_key_no_optional[OF krp rp(3)]])
    have "n \<in> set (rs_nodes ?s1) \<or> (\<exists>m \<in> set (rs_nodes ?s1). keyOf (rs_tree ?s1) m = (x, ?tgt))"
    proof (cases "original = n")
      case True
      have o: "n < length (heap (rs_tree s))" by (rule extends_length[OF ext nl])
      have inK: "(x, [] @ p) \<in> keyOf (rs_tree s) ` set (rs_knownNonNulls s)"
        using rps inv krp by (force simp: reduceInv_def)
      show ?thesis
      proof (cases rule: reduceBody_cases[OF inv pend])
        case (1 t2)
        from rewalkNode_key[OF V(1) o V(5)] 1(1) True kn
        have "keyOf t2 n = (x, rewritePath (keyOf (rs_tree s) ` set (rs_knownNonNulls s)) x [] ?src)"
          by simp
        also have "\<dots> = (x, ?tgt)" using rewritePath_target[OF inK rp(3) n(3)] by simp
        finally have k2: "keyOf t2 n = (x, ?tgt)" .
        have "extends (rs_tree s) t2" using rewalkNode_wf(2)[OF V(1) o] 1(1) True by simp
        from extends_keyOf[OF this o] kn k2 show ?thesis by simp
      next
        case (2 t2 c)
        from rewalkNode_key[OF V(1) o V(5)] 2(1) True kn
        have "keyOf t2 c = (x, rewritePath (keyOf (rs_tree s) ` set (rs_knownNonNulls s)) x [] ?src)"
          by simp
        also have "\<dots> = (x, ?tgt)" using rewritePath_target[OF inK rp(3) n(3)] by simp
        finally have "keyOf t2 c = (x, ?tgt)" .
        then show ?thesis unfolding 2(3) by (auto simp: set_Set_add)
      qed
    next
      case False
      from Q show ?thesis
      proof (elim conjE disjE bexE)
        assume "n \<in> set (rs_nodes s)"
        then have "n \<in> set (rs_nodes ?s1)"
          using False by (cases rule: reduceBody_cases[OF inv pend])
                         (simp_all add: set_Set_add set_Set_delete)
        then show ?thesis by simp
      next
        fix m assume m: "m \<in> set (rs_nodes s)" "keyOf (rs_tree s) m = (x, ?tgt)"
        have ml: "m < length (heap (rs_tree s))" using V(4) m(1) by (simp add: validRefs_def)
        have "m \<in> set (rs_nodes ?s1)"
          by (rule reduceBody_keeps[OF inv pend m(1) settled_key_no_optional[OF m(2) tgt_no]])
        moreover have "keyOf (rs_tree ?s1) m = (x, ?tgt)"
          using extends_keyOf[OF e1 ml] m(2) by simp
        ultimately show ?thesis by blast
      qed
    qed
    with ext1 rp1 show "?Q (rs_tree ?s1) (rs_nodes ?s1) (rs_knownNonNulls ?s1)" by simp
  qed
  then obtain nodes' t' known' where
    R: "reduceMaybeOptionalChains nodes t = Some (nodes', t')" "wf_tree t'"
       "validRefs t' nodes'" "distinct nodes'" "validRefs t' known'"
       "set nodes' \<subseteq> set known'" "extends t t'" "rp \<in> set nodes'"
       "n \<in> set nodes' \<or> (\<exists>m \<in> set nodes'. keyOf t' m = (x, ?tgt))"
       "\<forall>n \<in> set nodes'. settled t' known' n"
    by blast
  have krp': "keyOf t' rp = (x, p)" using extends_keyOf[OF R(7) rpl] rp(2) by simp
  have kn': "keyOf t' n = (x, ?src)" using extends_keyOf[OF R(7) nl] n(2) by simp
  have nn: "n \<notin> set nodes'"
  proof
    assume "n \<in> set nodes'"
    with R(10) have "settled t' known' n" by simp
    then have "rewritePath (keyOf t' ` set known') x [] ?src = ?src"
      using kn' by (simp add: settled_def)
    moreover have "(x, [] @ p) \<in> keyOf t' ` set known'" using R(6,8) krp' by force
    ultimately show False using rewritePath_target[OF _ rp(3) n(3)] by simp
  qed
  with R(9) obtain m where m: "m \<in> set nodes'" "keyOf t' m = (x, ?tgt)" by blast
  have "\<forall>n \<in> set nodes'. settled t' nodes' n" using R(10,6) settled_mono by blast
  from reduce_settled_noop[OF R(2,3,4) this] R(1,8) nn m show ?thesis by blast
qed




lemma keys_ex_tree:
  "keyOf ex_tree 0 = (0, [])"
  "keyOf ex_tree 1 = (0, [ex_entry (''b'', False)])"
  "keyOf ex_tree (Suc 0) = (0, [ex_entry (''b'', False)])"
  "keyOf ex_tree 2 = (0, [ex_entry (''b'', True)])"
  "keyOf ex_tree 3 = (0, [ex_entry (''b'', True), ex_entry (''c'', False)])"
  by (simp_all add: keyOf_def ex_tree_def ex_dep_def ex_entry_def ex_ident_def getOrCreateProperty_def
      getOrCreateIdentifier_def getOrCreatePropertyEntry_def emptyTree_def Let_def)

text \<open>
  Claim C2, as stated, fails. In \<open>ex_tree\<close> node 1 is \<open>a.b\<close> and node 3 is \<open>a?.b.c\<close>. The
  walk of \<open>a?.b.c\<close> asks whether the node before the optional entry, \<open>a\<close>, is known
  non-null; \<open>a.b\<close> is never asked for. The canonicalizer returns the set \<open>{a.b, a?.b.c}\<close>
  and the trie as they are.
\<close>

theorem C2_counterexample:
  "keyOf ex_tree 1 = (0, [ex_entry (''b'', False)]) \<and>
   keyOf ex_tree 3 = (0, [ex_entry (''b'', True), ex_entry (''c'', False)]) \<and>
   reduceMaybeOptionalChains [1, 3] ex_tree = Some ([1, 3], ex_tree)"
proof -
  have v: "validRefs ex_tree [1, 3]" by (simp add: validRefs_def length_ex_tree)
  have "\<forall>n \<in> set [1, 3]. settled ex_tree [1, 3] n"
    by (simp add: settled_def keys_ex_tree ex_entry_def Let_def)
  from reduce_settled_noop[OF wf_ex_tree v _ this] keys_ex_tree show ?thesis by simp
qed






theorem C2_optional_collapse_witness:
  "wf_tree ex_tree \<and> validRefs ex_tree [0, 3] \<and> distinct [0, 3 :: nat] \<and>
   keyOf ex_tree 0 = (0, []) \<and>
   keyOf ex_tree 3 = (0, [\<lparr>property = ''b'', optional = True\<rparr>, \<lparr>property = ''c'', optional = False\<rparr>]) \<and>
   (\<exists>nodes' t' m.
      reduceMaybeOptionalChains [0, 3] ex_tree = Some (nodes', t') \<and>
      3 \<notin> set nodes' \<and> m \<in> set nodes' \<and>
      keyOf t' m = (0, [\<lparr>property = ''b'', optional = False\<rparr>, \<lparr>property = ''c'', optional = False\<rparr>]) \<and>
      0 \<in> set nodes' \<and>
      reduceMaybeOptionalChains nodes' t' = Some (nodes', t'))"
proof -
  have v: "validRefs ex_tree [0, 3]" by (simp add: validRefs_def length_ex_tree)
  have d: "distinct [0, 3 :: nat]" by simp
  have k0: "keyOf ex_tree 0 = (0, [])" by (rule keys_ex_tree)
  have k3: "keyOf ex_tree 3 = (0, [] @ \<lparr>property = ''b'', optional = True\<rparr> # [\<lparr>property = ''c'', optional = False\<rparr>])"
    by (simp add: keys_ex_tree ex_entry_def)
  from C2_optional_collapse[OF wf_ex_tree v d _ k0 _ _ k3] wf_ex_tree v d k0 k3
  show ?thesis by simp
qed




section \<open>The local fact extractor on a well-formed trie\<close>



text \<open>\<open>readSource\<close>: the dependency that an instruction is a read of, when the extractor
  processes the instruction as a property read: \<open>temporaries.get(id) ?? {identifier, path: []}\<close>
  for a \<open>PropertyLoad\<close>; \<open>temporaries.get(id)\<close>, when the configuration enables it and the
  entry exists, for a \<open>Destructure\<close> and a \<open>ComputedLoad\<close>.\<close>

definition readSource ::
    "HIRFunction \<Rightarrow> (IdentifierId \<rightharpoonup> ReactiveScopeDependency) \<Rightarrow> Instruction
       \<Rightarrow> ReactiveScopeDependency option" where
  "readSource fn temporaries instr =
     (case instr_value instr of
        PropertyLoad object p \<Rightarrow>
          (case temporaries (ident_id (place_identifier object)) of
             Some d \<Rightarrow> Some d
           | None \<Rightarrow> Some \<lparr>identifier = place_identifier object, path = []\<rparr>)
      | Destructure v \<Rightarrow>
          if enablePropagateDepsInHIR fn = ''enabled_with_optimizations''
          then temporaries (ident_id (place_identifier v)) else None
      | ComputedLoad object p \<Rightarrow>
          if enablePropagateDepsInHIR fn = ''enabled_with_optimizations''
          then temporaries (ident_id (place_identifier object)) else None
      | OtherValue \<Rightarrow> None)"

lemma collectInstruction_readSource:
  "collectInstruction fn temporaries known (tree, assumed) instr =
     (case readSource fn temporaries instr of
        None \<Rightarrow> (tree, assumed)
      | Some source \<Rightarrow>
          (case getOrCreateProperty tree source of
             (tree', n) \<Rightarrow> (tree', pushPropertyLoadNode tree' n (instr_id instr) known assumed)))"
  by (auto simp: collectInstruction_def readSource_def Let_def
           split: InstructionValue.splits option.splits)

lemma push_subset:
  "set result \<subseteq> set (pushPropertyLoadNode t node instrId known result)"
  by (auto simp: pushPropertyLoadNode_def Let_def set_Set_add)

lemma push_valid:
  "validRefs t result \<Longrightarrow> node < length (heap t) \<Longrightarrow>
     validRefs t (pushPropertyLoadNode t node instrId known result)"
  by (auto simp: pushPropertyLoadNode_def Let_def set_Set_add validRefs_def)

lemma push_distinct:
  "distinct result \<Longrightarrow> distinct (pushPropertyLoadNode t node instrId known result)"
  by (auto simp: pushPropertyLoadNode_def Let_def distinct_Set_add)

lemma collectInstruction_inv:
  assumes "wf_tree tree" "validRefs tree assumed" "distinct assumed"
    and "collectInstruction fn temporaries known (tree, assumed) instr = (tree', assumed')"
  shows "wf_tree tree'" "extends tree tree'" "validRefs tree' assumed'" "distinct assumed'"
    "set assumed \<subseteq> set assumed'"
proof -
  have "wf_tree tree' \<and> extends tree tree' \<and> validRefs tree' assumed' \<and> distinct assumed' \<and>
        set assumed \<subseteq> set assumed'"
  proof (cases "readSource fn temporaries instr")
    case None
    with assms show ?thesis by (simp add: collectInstruction_readSource extends_refl)
  next
    case (Some source)
    obtain t1 n where r: "getOrCreateProperty tree source = (t1, n)" by force
    note P = property_wf[OF assms(1) r]
    from assms(4) Some r have e: "tree' = t1"
      "assumed' = pushPropertyLoadNode t1 n (instr_id instr) known assumed"
      by (auto simp: collectInstruction_readSource)
    from P validRefs_extends[OF P(2) assms(2)] assms(3) show ?thesis
      unfolding e by (simp add: push_valid push_distinct push_subset)
  qed
  then show "wf_tree tree'" "extends tree tree'" "validRefs tree' assumed'" "distinct assumed'"
    "set assumed \<subseteq> set assumed'" by simp_all
qed

lemma collectInstructions_inv:
  "wf_tree tree \<Longrightarrow> validRefs tree assumed \<Longrightarrow> distinct assumed \<Longrightarrow>
     foldl (collectInstruction fn temporaries known) (tree, assumed) instrs = (tree', assumed') \<Longrightarrow>
     wf_tree tree' \<and> extends tree tree' \<and> validRefs tree' assumed' \<and> distinct assumed' \<and>
     set assumed \<subseteq> set assumed'"
proof (induction instrs arbitrary: tree assumed)
  case Nil
  then show ?case by (simp add: extends_refl)
next
  case (Cons i instrs)
  obtain t1 a1 where s: "collectInstruction fn temporaries known (tree, assumed) i = (t1, a1)"
    by force
  note I = collectInstruction_inv[OF Cons.prems(1,2,3) s]
  from Cons.prems(4) s have "foldl (collectInstruction fn temporaries known) (t1, a1) instrs
                               = (tree', assumed')" by simp
  from Cons.IH[OF I(1,3,4) this] I(2,5) show ?case by (auto intro: extends_trans)
qed


lemma collectInstruction_wf:
  assumes "wf_tree tree"
    and "collectInstruction fn temporaries known (tree, assumed) instr = (tree', assumed')"
  shows "wf_tree tree'" "extends tree tree'" "set assumed \<subseteq> set assumed'"
proof -
  have "wf_tree tree' \<and> extends tree tree' \<and> set assumed \<subseteq> set assumed'"
  proof (cases "readSource fn temporaries instr")
    case None
    with assms show ?thesis by (simp add: collectInstruction_readSource extends_refl)
  next
    case (Some source)
    obtain t1 n where r: "getOrCreateProperty tree source = (t1, n)" by force
    note P = property_wf[OF assms(1) r]
    from assms(2) Some r have e: "tree' = t1"
      "assumed' = pushPropertyLoadNode t1 n (instr_id instr) known assumed"
      by (auto simp: collectInstruction_readSource)
    from P show ?thesis unfolding e by (simp add: push_subset)
  qed
  then show "wf_tree tree'" "extends tree tree'" "set assumed \<subseteq> set assumed'" by simp_all
qed

lemma collectInstructions_wf:
  "wf_tree tree \<Longrightarrow>
     foldl (collectInstruction fn temporaries known) (tree, assumed) instrs = (tree', assumed') \<Longrightarrow>
     wf_tree tree' \<and> extends tree tree' \<and> set assumed \<subseteq> set assumed'"
proof (induction instrs arbitrary: tree assumed)
  case Nil
  then show ?case by (simp add: extends_refl)
next
  case (Cons i instrs)
  obtain t1 a1 where s: "collectInstruction fn temporaries known (tree, assumed) i = (t1, a1)"
    by force
  note I = collectInstruction_wf[OF Cons.prems(1) s]
  from Cons.prems(2) s have "foldl (collectInstruction fn temporaries known) (t1, a1) instrs
                               = (tree', assumed')" by simp
  from Cons.IH[OF I(1) this] I(2,3) show ?case by (auto intro: extends_trans)
qed

text \<open>The scan of an instruction list resolves the source of every property read in it,
  and the resolved node is in the fact set afterwards when \<open>pushPropertyLoadNode\<close> admitted
  it: when the identifier recorded on the node is not mutable at the instruction, or its
  id is known immutable.\<close>

lemma scan_admits:
  "wf_tree tree \<Longrightarrow>
   foldl (collectInstruction fn temporaries known) (tree, assumed) instrs = (tree', assumed') \<Longrightarrow>
   instr \<in> set instrs \<Longrightarrow> readSource fn temporaries instr = Some source \<Longrightarrow>
     \<exists>node. lookupKey tree' (depKey source) = Some node \<and> node < length (heap tree') \<and>
       keyOf tree' node = depKey source \<and>
       (\<not> isMutableAtInstr (identifier (fullPath (heap tree' ! node))) (instr_id instr) \<or>
        ident_id (identifier source) \<in> known \<longrightarrow> node \<in> set assumed')"
proof (induction instrs arbitrary: tree assumed)
  case Nil
  then show ?case by simp
next
  case (Cons i instrs)
  obtain t1 a1 where s: "collectInstruction fn temporaries known (tree, assumed) i = (t1, a1)"
    by force
  note I = collectInstruction_wf[OF Cons.prems(1) s]
  from Cons.prems(2) s have rest: "foldl (collectInstruction fn temporaries known) (t1, a1) instrs
                               = (tree', assumed')" by simp
  note R = collectInstructions_wf[OF I(1) rest]
  show ?case
  proof (cases "instr \<in> set instrs")
    case True
    from Cons.IH[OF I(1) rest True Cons.prems(4)] show ?thesis .
  next
    case False
    with Cons.prems(3) have i: "i = instr" by simp
    obtain t2 n where r: "getOrCreateProperty tree source = (t2, n)" by force
    note P = property_wf[OF Cons.prems(1) r]
    from s i Cons.prems(4) r have e: "t1 = t2"
      "a1 = pushPropertyLoadNode t2 n (instr_id instr) known assumed"
      by (auto simp: collectInstruction_readSource)
    have ext: "extends t2 tree'" using R e(1) by simp
    have l: "lookupKey tree' (depKey source) = Some n"
      by (rule extends_lookupKey[OF P(1) ext P(5)])
    have nl: "n < length (heap tree')" by (rule extends_length[OF ext P(3)])
    have k: "keyOf tree' n = depKey source" using extends_keyOf[OF ext P(3)] P(4) by simp
    have fp: "fullPath (heap tree' ! n) = fullPath (heap t2 ! n)"
      by (rule extends_fullPath[OF ext P(3)])
    have idn: "ident_id (identifier (fullPath (heap t2 ! n))) = ident_id (identifier source)"
      using P(4) by (simp add: keyOf_def depKey_def)
    have "n \<in> set assumed'"
      if "\<not> isMutableAtInstr (identifier (fullPath (heap tree' ! n))) (instr_id instr) \<or>
          ident_id (identifier source) \<in> known"
    proof -
      from that fp idn have "n \<in> set a1"
        unfolding e(2) by (auto simp: pushPropertyLoadNode_def Let_def set_Set_add)
      with R show ?thesis by auto
    qed
    with l nl k show ?thesis by blast
  qed
qed

lemma not_mutable_without_scope:
  "scope object = None \<or>
   range_end (mutableRange object) \<le> range_start (mutableRange object) + 1 \<Longrightarrow>
     \<not> isMutableAtInstr object instrId"
  by (auto simp: isMutableAtInstr_def)


text \<open>\<open>recordsIdentifier t ident\<close>: the root that the trie has for the id of \<open>ident\<close>, if
  any, records the object \<open>ident\<close>. \<open>getOrCreateIdentifier\<close> keeps the object of the first
  call for an id, and a child copies \<open>parent.fullPath.identifier\<close>.\<close>

definition recordsIdentifier :: "Tree \<Rightarrow> Identifier \<Rightarrow> bool" where
  "recordsIdentifier t ident =
     (case roots t (ident_id ident) of
        None \<Rightarrow> True
      | Some r \<Rightarrow> identifier (fullPath (heap t ! r)) = ident)"

lemma entry_roots:
  "getOrCreatePropertyEntry t par e = (t', c) \<Longrightarrow> roots t' = roots t"
  by (auto simp: getOrCreatePropertyEntry_def Let_def split: option.splits if_splits)

lemma entries_roots:
  "getOrCreateEntries t i es = (t', j) \<Longrightarrow> roots t' = roots t"
proof (induction es arbitrary: t i)
  case Nil
  then show ?case by simp
next
  case (Cons e es)
  obtain t1 c where s: "getOrCreatePropertyEntry t i e = (t1, c)" by force
  with Cons.prems have "getOrCreateEntries t1 c es = (t', j)" by simp
  from Cons.IH[OF this] entry_roots[OF s] show ?case by simp
qed

lemma lookupPath_identifier:
  "wf_tree t \<Longrightarrow> i < length (heap t) \<Longrightarrow> lookupPath t i es = Some j \<Longrightarrow>
     identifier (fullPath (heap t ! j)) = identifier (fullPath (heap t ! i))"
proof (induction es arbitrary: i)
  case Nil
  then show ?case by simp
next
  case (Cons e es)
  from Cons.prems obtain k where k: "childOf t i e = Some k" "lookupPath t k es = Some j"
    by (auto split: option.splits)
  from wf_childD[OF Cons.prems(1,2) k(1)]
  have "k < length (heap t)"
    "identifier (fullPath (heap t ! k)) = identifier (fullPath (heap t ! i))" by auto
  with Cons.IH[OF Cons.prems(1) this(1) k(2)] show ?case by simp
qed

text \<open>A node carries the \<open>Identifier\<close> object of the root node of its id.\<close>

lemma lookupKey_identifier:
  assumes "wf_tree t" "lookupKey t k = Some n" "roots t (fst k) = Some r"
  shows "identifier (fullPath (heap t ! n)) = identifier (fullPath (heap t ! r))"
proof -
  from assms(2,3) have l: "lookupPath t r (snd k) = Some n" by (simp add: lookupKey_def)
  have "r < length (heap t)" using wf_rootD[OF assms(1,3)] by simp
  from lookupPath_identifier[OF assms(1) this l] show ?thesis .
qed

lemma recorded_node:
  assumes "wf_tree t" "lookupKey t (depKey d) = Some n" "recordsIdentifier t (identifier d)"
  shows "identifier (fullPath (heap t ! n)) = identifier d"
proof -
  from assms(2) obtain r where r: "roots t (ident_id (identifier d)) = Some r"
    by (auto simp: lookupKey_def depKey_def split: option.splits)
  from lookupKey_identifier[OF assms(1,2)] r
  have "identifier (fullPath (heap t ! n)) = identifier (fullPath (heap t ! r))"
    by (simp add: depKey_def)
  with assms(3) r show ?thesis by (simp add: recordsIdentifier_def)
qed

lemma property_records:
  assumes wf: "wf_tree t" and res: "getOrCreateProperty t d = (t', n)"
    and rec: "recordsIdentifier t ident"
    and share: "ident_id (identifier d) = ident_id ident \<longrightarrow> identifier d = ident"
  shows "recordsIdentifier t' ident"
proof -
  obtain t1 r where s1: "getOrCreateIdentifier t (identifier d) = (t1, r)" by force
  with res have s2: "getOrCreateEntries t1 r (path d) = (t', n)"
    by (simp add: getOrCreateProperty_walk)
  note I = identifier_wf[OF wf s1]
  note E = entries_wf[OF I(1) I(3) s2]
  have rt: "roots t' = roots t1" by (rule entries_roots[OF s2])
  have e1: "extends t1 t'" using E by simp
  have r1: "recordsIdentifier t1 ident"
  proof (cases "roots t (ident_id (identifier d))")
    case (Some r')
    with s1 have "t1 = t" by (auto simp: getOrCreateIdentifier_def)
    with rec show ?thesis by simp
  next
    case None
    with s1 have t1: "t1 = t\<lparr>roots := (roots t)(ident_id (identifier d) \<mapsto> length (heap t)),
                          heap := heap t @
                            [\<lparr>properties = Map.empty, optionalProperties = Map.empty,
                              parent = None,
                              fullPath = \<lparr>identifier = identifier d, path = []\<rparr>,
                              hasOptional = False, root = Some (ident_id (identifier d))\<rparr>]\<rparr>"
      by (auto simp: getOrCreateIdentifier_def Let_def)
    show ?thesis
    proof (cases "ident_id (identifier d) = ident_id ident")
      case True
      with share have "identifier d = ident" by simp
      then show ?thesis unfolding t1 by (simp add: recordsIdentifier_def)
    next
      case False
      show ?thesis
      proof (cases "roots t (ident_id ident)")
        case None
        with False show ?thesis unfolding t1 by (simp add: recordsIdentifier_def)
      next
        case (Some q)
        then have "q < length (heap t)" using wf_rootD[OF wf] by simp
        with rec Some False show ?thesis
          unfolding t1 by (simp add: recordsIdentifier_def nth_append)
      qed
    qed
  qed
  show ?thesis
  proof (cases "roots t1 (ident_id ident)")
    case None
    with rt show ?thesis by (simp add: recordsIdentifier_def)
  next
    case (Some q)
    then have "q < length (heap t1)" using wf_rootD[OF I(1)] by simp
    from extends_fullPath[OF e1 this] r1 Some rt show ?thesis
      by (simp add: recordsIdentifier_def)
  qed
qed

lemma collectInstruction_records:
  assumes "wf_tree tree"
    and "collectInstruction fn temporaries known (tree, assumed) instr = (tree', assumed')"
    and "recordsIdentifier tree ident"
    and "\<forall>s. readSource fn temporaries instr = Some s \<longrightarrow>
           ident_id (identifier s) = ident_id ident \<longrightarrow> identifier s = ident"
  shows "recordsIdentifier tree' ident"
proof (cases "readSource fn temporaries instr")
  case None
  with assms(2,3) show ?thesis by (simp add: collectInstruction_readSource)
next
  case (Some source)
  obtain t1 n where r: "getOrCreateProperty tree source = (t1, n)" by force
  from assms(2) Some r have "tree' = t1" by (auto simp: collectInstruction_readSource)
  with property_records[OF assms(1) r assms(3)] assms(4) Some show ?thesis by simp
qed

lemma scan_records:
  "wf_tree tree \<Longrightarrow>
   foldl (collectInstruction fn temporaries known) (tree, assumed) instrs = (tree', assumed') \<Longrightarrow>
   recordsIdentifier tree ident \<Longrightarrow>
   \<forall>i \<in> set instrs. \<forall>s. readSource fn temporaries i = Some s \<longrightarrow>
       ident_id (identifier s) = ident_id ident \<longrightarrow> identifier s = ident \<Longrightarrow>
     recordsIdentifier tree' ident"
proof (induction instrs arbitrary: tree assumed)
  case Nil
  then show ?case by simp
next
  case (Cons i instrs)
  obtain t1 a1 where s: "collectInstruction fn temporaries known (tree, assumed) i = (t1, a1)"
    by force
  note I = collectInstruction_wf[OF Cons.prems(1) s]
  from Cons.prems(2) s have rest: "foldl (collectInstruction fn temporaries known) (t1, a1) instrs
                               = (tree', assumed')" by simp
  have r1: "recordsIdentifier t1 ident"
    by (rule collectInstruction_records[OF Cons.prems(1) s Cons.prems(3)])
       (use Cons.prems(4) in simp)
  show ?case
    by (rule Cons.IH[OF I(1) rest r1]) (use Cons.prems(4) in simp)
qed

text \<open>
  Claim C10, amended. In the scan of a block's instructions, every instruction that the
  extractor processes as a property read has its source dependency resolved to a node of
  the returned trie, with the root identifier id and the path of the source. When the
  \<open>Identifier\<close> object recorded on that node (\<open>node.fullPath.identifier\<close>, the first object
  resolved for the id) has no owning scope, or its mutable range spans at most one
  instruction (\<open>end \<le> start + 1\<close>), the node is in the block's fact set after the scan,
  for every instruction id and every known-immutable set. The recorded object is the
  source's root identifier when the root that the trie has for the id before the scan,
  if any, records it, and the sources of the scanned reads with the same id have the same
  root identifier; then the node is in the fact set when the source's root identifier
  has no owning scope or a mutable range that spans at most one instruction.
\<close>

theorem C10_admitted_when_not_mutable:
  assumes "wf_tree tree"
    and "foldl (collectInstruction fn temporaries known) (tree, assumed) instrs = (tree', assumed')"
    and "instr \<in> set instrs" and "readSource fn temporaries instr = Some source"
  shows "\<exists>node. lookupKey tree' (depKey source) = Some node \<and>
           ident_id (identifier (fullPath (heap tree' ! node))) = ident_id (identifier source) \<and>
           path (fullPath (heap tree' ! node)) = path source \<and>
           (scope (identifier (fullPath (heap tree' ! node))) = None \<or>
            range_end (mutableRange (identifier (fullPath (heap tree' ! node))))
              \<le> range_start (mutableRange (identifier (fullPath (heap tree' ! node)))) + 1
            \<longrightarrow> node \<in> set assumed') \<and>
           (recordsIdentifier tree (identifier source) \<longrightarrow>
            (\<forall>i \<in> set instrs. \<forall>s. readSource fn temporaries i = Some s \<longrightarrow>
               ident_id (identifier s) = ident_id (identifier source) \<longrightarrow>
               identifier s = identifier source) \<longrightarrow>
              identifier (fullPath (heap tree' ! node)) = identifier source \<and>
              (scope (identifier source) = None \<or>
               range_end (mutableRange (identifier source))
                 \<le> range_start (mutableRange (identifier source)) + 1
               \<longrightarrow> node \<in> set assumed'))"
proof -
  from scan_admits[OF assms] obtain node where
    n: "lookupKey tree' (depKey source) = Some node" "keyOf tree' node = depKey source"
       "\<not> isMutableAtInstr (identifier (fullPath (heap tree' ! node))) (instr_id instr) \<or>
        ident_id (identifier source) \<in> known \<longrightarrow> node \<in> set assumed'"
    by blast
  from n(2) have k: "ident_id (identifier (fullPath (heap tree' ! node))) = ident_id (identifier source)"
    "path (fullPath (heap tree' ! node)) = path source"
    by (simp_all add: keyOf_def depKey_def)
  have adm: "node \<in> set assumed'"
    if "scope (identifier (fullPath (heap tree' ! node))) = None \<or>
        range_end (mutableRange (identifier (fullPath (heap tree' ! node))))
          \<le> range_start (mutableRange (identifier (fullPath (heap tree' ! node)))) + 1"
    using n(3) not_mutable_without_scope[OF that] by blast
  have wf': "wf_tree tree'" using collectInstructions_wf[OF assms(1,2)] by simp
  have rec: "identifier (fullPath (heap tree' ! node)) = identifier source"
    if "recordsIdentifier tree (identifier source)"
       "\<forall>i \<in> set instrs. \<forall>s. readSource fn temporaries i = Some s \<longrightarrow>
          ident_id (identifier s) = ident_id (identifier source) \<longrightarrow>
          identifier s = identifier source"
    by (rule recorded_node[OF wf' n(1) scan_records[OF assms(1,2) that]])
  from n(1) k adm rec show ?thesis by (intro exI[of _ node]) auto
qed



theorem C10_admitted_when_not_mutable_witness:
  "wf_tree emptyTree \<and>
   recordsIdentifier emptyTree (ex_ident 7) \<and>
   readSource (ex_fn Other []) Map.empty (ex_load 6 (ex_ident 7))
     = Some \<lparr>identifier = ex_ident 7, path = []\<rparr> \<and>
   scope (ex_ident 7) = None \<and>
   (case foldl (collectInstruction (ex_fn Other []) Map.empty {}) (emptyTree, [])
           [ex_load 5 (ex_ident 7), ex_load 6 (ex_ident 7)] of
      (tree', assumed') \<Rightarrow>
        (\<exists>node. lookupKey tree' (depKey \<lparr>identifier = ex_ident 7, path = []\<rparr>) = Some node \<and>
           identifier (fullPath (heap tree' ! node)) = ex_ident 7 \<and>
           node \<in> set assumed'))"
proof -
  let ?src = "\<lparr>identifier = ex_ident 7, path = []\<rparr>"
  let ?is = "[ex_load 5 (ex_ident 7), ex_load 6 (ex_ident 7)]"
  obtain tree' assumed' where
    sc: "foldl (collectInstruction (ex_fn Other []) Map.empty {}) (emptyTree, []) ?is
           = (tree', assumed')" by force
  have rs: "readSource (ex_fn Other []) Map.empty (ex_load 6 (ex_ident 7)) = Some ?src"
    by (simp add: readSource_def ex_load_def)
  have rc: "recordsIdentifier emptyTree (identifier ?src)"
    by (simp add: recordsIdentifier_def emptyTree_def)
  have sh: "\<forall>i \<in> set ?is. \<forall>s. readSource (ex_fn Other []) Map.empty i = Some s \<longrightarrow>
              ident_id (identifier s) = ident_id (identifier ?src) \<longrightarrow>
              identifier s = identifier ?src"
    by (simp add: readSource_def ex_load_def)
  have ns: "scope (identifier ?src) = None" by (simp add: ex_ident_def)
  from C10_admitted_when_not_mutable[OF wf_emptyTree sc _ rs] rc sh ns
  have "\<exists>node. lookupKey tree' (depKey ?src) = Some node \<and>
          identifier (fullPath (heap tree' ! node)) = identifier ?src \<and> node \<in> set assumed'"
    by auto
  with wf_emptyTree rc rs ns sc show ?thesis by simp
qed


text \<open>
  Claim C10, as stated, fails. The trie keeps the first \<open>Identifier\<close> object resolved for an
  id, and \<open>pushPropertyLoadNode\<close> reads the mutable range and the scope of that recorded
  object (\<open>node.fullPath.identifier\<close>), not those of the source dependency's root
  identifier. In a function that is neither a component nor a hook, the block reads
  identifier 7 twice: at instruction 5 through an object with the mutable range [1, 9)
  and a scope of the range [1, 9), at instruction 6 through an object without scope and
  with the range [0, 0). The second source's root identifier has no owning scope and a
  range that spans no instruction; its node is node 0, which records the first object,
  mutable at instruction 6; and the block's fact set stays empty.
\<close>

theorem C10_counterexample:
  "readSource ex_fn_two_reads Map.empty (ex_load 6 (ex_ident 7))
     = Some \<lparr>identifier = ex_ident 7, path = []\<rparr> \<and>
   scope (ex_ident 7) = None \<and>
   range_end (mutableRange (ex_ident 7)) \<le> range_start (mutableRange (ex_ident 7)) + 1 \<and>
   (case foldl (collectInstruction ex_fn_two_reads Map.empty
                  (knownImmutableIdentifiersOf ex_fn_two_reads))
           (emptyTree, []) [ex_load 5 (ex_mutable_ident 7), ex_load 6 (ex_ident 7)] of
      (tree', assumed') \<Rightarrow>
        lookupKey tree' (depKey \<lparr>identifier = ex_ident 7, path = []\<rparr>) = Some 0 \<and>
        identifier (fullPath (heap tree' ! 0)) = ex_mutable_ident 7 \<and>
        isMutableAtInstr (identifier (fullPath (heap tree' ! 0))) 6 \<and>
        assumed' = []) \<and>
   map (\<lambda>(k, info). (k, assumedNonNullObjects info))
       (fst (collectNonNullsInBlocks ex_fn_two_reads Map.empty Map.empty emptyTree))
     = [(0, [])]"
  by (simp add: readSource_def collectInstruction_def ex_load_def ex_fn_two_reads_def
      getOrCreateProperty_def getOrCreateIdentifier_def emptyTree_def pushPropertyLoadNode_def
      isMutableAtInstr_def ex_mutable_ident_def ex_ident_def Set_add_def Let_def inRange_def
      knownImmutableIdentifiersOf_def lookupKey_def depKey_def collectNonNullsInBlocks_def
      knownNonNullIdentifiersOf_def collectBlock_def)



subsection \<open>The extractor's trie and table are well formed\<close>

lemma set_update_subset: "set (AList.update k v al) \<subseteq> insert (k, v) (set al)"
  by (induction al) auto

lemma collectBlock_inv:
  assumes wf: "wf_tree tree"
    and nodes: "\<forall>(k, info) \<in> set nodes.
                  validRefs tree (assumedNonNullObjects info) \<and> distinct (assumedNonNullObjects info)"
    and kn: "validRefs tree knownNonNull" "distinct knownNonNull"
    and res: "collectBlock fn temporaries optionals known knownNonNull (nodes, tree) entry
                = (nodes', tree')"
  shows "wf_tree tree'" "extends tree tree'"
    "\<forall>(k, info) \<in> set nodes'.
       validRefs tree' (assumedNonNullObjects info) \<and> distinct (assumedNonNullObjects info)"
proof -
  obtain key b where entry: "entry = (key, b)" by force
  have "wf_tree tree' \<and> extends tree tree' \<and>
        (\<exists>facts. validRefs tree' facts \<and> distinct facts \<and>
           nodes' = AList.update (block_id b) \<lparr>block = b, assumedNonNullObjects = facts\<rparr> nodes)"
  proof (cases "optionals (block_id b)")
    case (Some chain)
    obtain t1 n where r: "getOrCreateProperty tree chain = (t1, n)" by force
    note P = property_wf[OF wf r]
    from res entry Some r have e: "tree' = t1"
      "nodes' = AList.update (block_id b)
                  \<lparr>block = b, assumedNonNullObjects = Set_add knownNonNull n\<rparr> nodes"
      by (auto simp: collectBlock_def)
    have "validRefs t1 (Set_add knownNonNull n)"
      using validRefs_extends[OF P(2) kn(1)] P(3) by (auto simp: validRefs_def set_Set_add)
    with P kn(2) e show ?thesis by (auto intro: distinct_Set_add)
  next
    case None
    obtain t1 a1 where
      f: "foldl (collectInstruction fn temporaries known) (tree, knownNonNull) (instructions b)
            = (t1, a1)" by force
    from res entry None f have e: "tree' = t1"
      "nodes' = AList.update (block_id b) \<lparr>block = b, assumedNonNullObjects = a1\<rparr> nodes"
      by (auto simp: collectBlock_def)
    from collectInstructions_inv[OF wf kn f] e show ?thesis by auto
  qed
  then obtain facts where
    R: "wf_tree tree'" "extends tree tree'" "validRefs tree' facts" "distinct facts"
       "nodes' = AList.update (block_id b) \<lparr>block = b, assumedNonNullObjects = facts\<rparr> nodes"
    by blast
  show "wf_tree tree'" "extends tree tree'" by (fact R(1), fact R(2))
  show "\<forall>(k, info) \<in> set nodes'.
       validRefs tree' (assumedNonNullObjects info) \<and> distinct (assumedNonNullObjects info)"
  proof (clarify)
    fix k info assume "(k, info) \<in> set nodes'"
    with R(5) set_update_subset[of "block_id b" _ nodes]
    have "(k, info) = (block_id b, \<lparr>block = b, assumedNonNullObjects = facts\<rparr>) \<or>
          (k, info) \<in> set nodes" by auto
    then show "validRefs tree' (assumedNonNullObjects info) \<and> distinct (assumedNonNullObjects info)"
    proof
      assume "(k, info) = (block_id b, \<lparr>block = b, assumedNonNullObjects = facts\<rparr>)"
      with R(3,4) show ?thesis by auto
    next
      assume "(k, info) \<in> set nodes"
      with nodes validRefs_extends[OF R(2)] show ?thesis by auto
    qed
  qed
qed

lemma collectBlocks_inv:
  "wf_tree tree \<Longrightarrow>
   \<forall>(k, info) \<in> set nodes.
      validRefs tree (assumedNonNullObjects info) \<and> distinct (assumedNonNullObjects info) \<Longrightarrow>
   validRefs tree knownNonNull \<Longrightarrow> distinct knownNonNull \<Longrightarrow>
   foldl (collectBlock fn temporaries optionals known knownNonNull) (nodes, tree) blocks
     = (nodes', tree') \<Longrightarrow>
     wf_tree tree' \<and>
     (\<forall>(k, info) \<in> set nodes'.
        validRefs tree' (assumedNonNullObjects info) \<and> distinct (assumedNonNullObjects info))"
proof (induction blocks arbitrary: nodes tree)
  case Nil
  then show ?case by simp
next
  case (Cons entry blocks)
  obtain n1 t1 where
    s: "collectBlock fn temporaries optionals known knownNonNull (nodes, tree) entry = (n1, t1)"
    by force
  note B = collectBlock_inv[OF Cons.prems(1,2,3,4) s]
  from Cons.prems(5) s have
    "foldl (collectBlock fn temporaries optionals known knownNonNull) (n1, t1) blocks
       = (nodes', tree')" by simp
  from Cons.IH[OF B(1,3) validRefs_extends[OF B(2) Cons.prems(3)] Cons.prems(4) this]
  show ?case .
qed

text \<open>The trie and the fact table that the extractor builds from the empty trie of the
  pass satisfy what the theorems on the canonicalizer and the propagator assume.\<close>

lemma collectNonNullsInBlocks_inv:
  assumes "collectNonNullsInBlocks fn temporaries optionals emptyTree = (nodes, tree)"
  shows "wf_tree tree \<and>
         (\<forall>(k, info) \<in> set nodes.
            validRefs tree (assumedNonNullObjects info) \<and> distinct (assumedNonNullObjects info))"
proof -
  obtain t0 kn where k: "knownNonNullIdentifiersOf fn emptyTree = (t0, kn)" by force
  have "wf_tree t0 \<and> validRefs t0 kn \<and> distinct kn"
  proof (cases "enablePropagateDepsInHIR fn = ''enabled_with_optimizations'' \<and> fnType fn = Component")
    case False
    with k have "t0 = emptyTree" "kn = []" by (auto simp: knownNonNullIdentifiersOf_def)
    then show ?thesis by (simp add: wf_emptyTree validRefs_def)
  next
    case True
    show ?thesis
    proof (cases "params fn")
      case Nil
      with k True have "t0 = emptyTree" "kn = []" by (auto simp: knownNonNullIdentifiersOf_def)
      then show ?thesis by (simp add: wf_emptyTree validRefs_def)
    next
      case (Cons q qs)
      show ?thesis
      proof (cases q)
        case (SpreadParam pl)
        with k True Cons have "t0 = emptyTree" "kn = []"
          by (auto simp: knownNonNullIdentifiersOf_def)
        then show ?thesis by (simp add: wf_emptyTree validRefs_def)
      next
        case (IdentifierParam pl)
        obtain t1 r where g: "getOrCreateIdentifier emptyTree (place_identifier pl) = (t1, r)"
          by force
        with k True Cons IdentifierParam have "t0 = t1" "kn = [r]"
          by (auto simp: knownNonNullIdentifiersOf_def Set_add_def)
        with identifier_wf(1,3)[OF wf_emptyTree g] show ?thesis by (simp add: validRefs_def)
      qed
    qed
  qed
  moreover from assms k have
    "foldl (collectBlock fn temporaries optionals (knownImmutableIdentifiersOf fn) kn)
       ([], t0) (body_blocks fn) = (nodes, tree)"
    by (simp add: collectNonNullsInBlocks_def)
  ultimately show ?thesis using collectBlocks_inv[of t0 "[]" kn] by auto
qed

section \<open>The iteration cap\<close>

text \<open>\<open>changedRun k\<close>: the state after \<open>k\<close> iterations in a row that all returned and all
  reported a change.\<close>

fun changedRun ::
    "(BlockId \<times> BlockId list) list \<Rightarrow> BlockId list \<Rightarrow> nat \<Rightarrow> PState \<Rightarrow> PState option" where
  "changedRun blockSuccessors blockIds 0 st = Some st"
| "changedRun blockSuccessors blockIds (Suc k) st =
     (case iteration blockSuccessors blockIds st of
        Some (Inr (True, st')) \<Rightarrow> changedRun blockSuccessors blockIds k st'
      | _ \<Rightarrow> None)"

lemma fixpointLoop_cap:
  "i \<le> 100 \<Longrightarrow> changedRun bs ids (100 - i) st = Some st' \<Longrightarrow>
     fixpointLoop bs ids i st = Some (Inl (Invariant FixpointDidNotTerminate GeneratedSource))"
proof (induction "100 - i" arbitrary: i st)
  case 0
  then show ?case by (simp add: fixpointLoop.simps)
next
  case (Suc k)
  then have i: "i < 100" and k: "100 - Suc i = k" and d: "100 - i = Suc k" by simp_all
  from Suc.prems(2) d obtain st1 where
    it: "iteration bs ids st = Some (Inr (True, st1))" and r: "changedRun bs ids k st1 = Some st'"
    by (auto split: option.splits sum.splits bool.splits)
  have "fixpointLoop bs ids (Suc i) st1
          = Some (Inl (Invariant FixpointDidNotTerminate GeneratedSource))"
    using Suc.hyps(1)[of "Suc i" st1] k r i by simp
  with it i show ?case by (subst fixpointLoop.simps) simp
qed

lemma fixpointLoop_result:
  "fixpointLoop bs ids i st = Some (Inr r) \<Longrightarrow>
     \<exists>st0. iteration bs ids st0 = Some (Inr (False, r))"
proof (induction bs ids i st rule: fixpointLoop.induct)
  case (1 bs ids i st)
  from "1.prems" have i: "i < 100" by (subst (asm) fixpointLoop.simps) (simp split: if_splits)
  with "1.prems" obtain c st1 where it: "iteration bs ids st = Some (Inr (c, st1))"
    by (subst (asm) fixpointLoop.simps) (auto split: option.splits sum.splits)
  show ?case
  proof (cases c)
    case True
    with "1.prems" i it have "fixpointLoop bs ids (Suc i) st1 = Some (Inr r)"
      by (subst (asm) fixpointLoop.simps) simp
    from "1.IH"[OF i it refl refl _ this] True show ?thesis by simp
  next
    case False
    with "1.prems" i it have "r = st1" by (subst (asm) fixpointLoop.simps) simp
    with it False show ?thesis by auto
  qed
qed

text \<open>
  Claim C5. When the iterations up to the cap all report a change (\<open>100 - i\<close> of them from
  the loop counter \<open>i\<close>; all hundred from the start of \<open>propagateNonNull\<close>), the loop throws the
  invariant error with the reason "fixed point iteration did not terminate after 100
  loops" and the location \<open>GeneratedSource\<close>, and returns no table. A table that the loop
  does return is the one a whole iteration left without reporting a change.
\<close>

theorem C5_iteration_cap:
  assumes "i \<le> 100" and "changedRun bs ids (100 - i) st = Some st'"
  shows "fixpointLoop bs ids i st
           = Some (Inl (Invariant FixpointDidNotTerminate GeneratedSource)) \<and>
         (\<forall>r. fixpointLoop bs ids i st \<noteq> Some (Inr r)) \<and>
         (i = 0 \<longrightarrow> bs = blockSuccessorsOf blocks \<longrightarrow> ids = map fst blocks \<longrightarrow>
          st = \<lparr>traversalState = Map.empty, ps_nodes = nodes, ps_tree = tree\<rparr> \<longrightarrow>
            propagateNonNull blocks nodes tree
              = Some (Inl (Invariant FixpointDidNotTerminate GeneratedSource))) \<and>
         (\<forall>j s r. fixpointLoop bs ids j s = Some (Inr r) \<longrightarrow>
            (\<exists>st0. iteration bs ids st0 = Some (Inr (False, r))))"
proof -
  have a: "fixpointLoop bs ids i st
             = Some (Inl (Invariant FixpointDidNotTerminate GeneratedSource))"
    by (rule fixpointLoop_cap[OF assms])
  then have b: "\<forall>r. fixpointLoop bs ids i st \<noteq> Some (Inr r)" by simp
  have c: "i = 0 \<longrightarrow> bs = blockSuccessorsOf blocks \<longrightarrow> ids = map fst blocks \<longrightarrow>
          st = \<lparr>traversalState = Map.empty, ps_nodes = nodes, ps_tree = tree\<rparr> \<longrightarrow>
            propagateNonNull blocks nodes tree
              = Some (Inl (Invariant FixpointDidNotTerminate GeneratedSource))"
    using a by (auto simp: propagateNonNull_def)
  have d: "\<forall>j s r. fixpointLoop bs ids j s = Some (Inr r) \<longrightarrow>
            (\<exists>st0. iteration bs ids st0 = Some (Inr (False, r)))"
    using fixpointLoop_result by blast
  from a b c d show ?thesis by blast
qed

lemma ex_changedRun:
  "\<exists>st'. changedRun [] [0] (Suc 0) (ex_state [ex_info 0 [] [0, 3]]) = Some st'"
  by (simp add: ex_simps)

theorem C5_iteration_cap_witness:
  "(99 :: nat) \<le> 100 \<and>
   changedRun [] [0] (100 - 99) (ex_state [ex_info 0 [] [0, 3]]) \<noteq> None \<and>
   fixpointLoop [] [0] 99 (ex_state [ex_info 0 [] [0, 3]])
     = Some (Inl (Invariant FixpointDidNotTerminate GeneratedSource))"
proof -
  obtain st' where r: "changedRun [] [0] (100 - 99) (ex_state [ex_info 0 [] [0, 3]]) = Some st'"
    using ex_changedRun by auto
  have le: "(99 :: nat) \<le> 100" by simp
  from C5_iteration_cap[OF le r] r show ?thesis by simp
qed



section \<open>Propagation on a well-formed state\<close>

definition factsOf :: "PState \<Rightarrow> BlockId \<Rightarrow> NodeRef list" where
  "factsOf st k = (case map_of (ps_nodes st) k of None \<Rightarrow> []
                   | Some info \<Rightarrow> assumedNonNullObjects info)"

lemma set_Set_union: "set (Set_union a b) = set a \<union> set b"
  unfolding Set_union_def by (induction b arbitrary: a) (auto simp: set_Set_add)

lemma distinct_Set_union: "distinct a \<Longrightarrow> distinct (Set_union a b)"
  unfolding Set_union_def by (induction b arbitrary: a) (auto simp: distinct_Set_add)


lemma assertAll_present:
  "\<forall>n \<in> set ds. map_of (ps_nodes st) n \<noteq> None \<Longrightarrow>
     assertAll (map (\<lambda>n. map_sum id assumedNonNullObjects (assertNonNull (map_of (ps_nodes st) n))) ds)
       = Inr (map (factsOf st) ds)"
  by (induction ds) (auto simp: assertNonNull_def factsOf_def)


text \<open>The state invariant: the trie is well formed, every fact set is a set of nodes of
  the trie, and only blocks of the fact table have a traversal state.\<close>

definition pstateInv :: "PState \<Rightarrow> bool" where
  "pstateInv st \<longleftrightarrow>
     wf_tree (ps_tree st) \<and>
     (\<forall>(k, info) \<in> set (ps_nodes st).
        validRefs (ps_tree st) (assumedNonNullObjects info) \<and>
        distinct (assumedNonNullObjects info)) \<and>
     (\<forall>k. traversalState st k \<noteq> None \<longrightarrow> k \<in> fst ` set (ps_nodes st))"

text \<open>\<open>stays st st'\<close>: what a visit leaves as it was. The table keeps its keys and blocks;
  a block that had a traversal state keeps it and keeps its facts; a block without one
  has none or is done afterwards.\<close>

definition stays :: "PState \<Rightarrow> PState \<Rightarrow> bool" where
  "stays st st' \<longleftrightarrow>
     map fst (ps_nodes st') = map fst (ps_nodes st) \<and>
     (\<forall>k. traversalState st k \<noteq> None \<longrightarrow>
        traversalState st' k = traversalState st k \<and>
        map_of (ps_nodes st') k = map_of (ps_nodes st) k) \<and>
     (\<forall>k. traversalState st k = None \<longrightarrow>
        traversalState st' k = None \<or> traversalState st' k = Some Done) \<and>
     (\<forall>k info. map_of (ps_nodes st) k = Some info \<longrightarrow>
        (\<exists>info'. map_of (ps_nodes st') k = Some info' \<and> block info' = block info))"

lemma stays_refl: "stays st st"
  by (simp add: stays_def)

lemma stays_trans:
  assumes a: "stays st st'" and b: "stays st' st''"
  shows "stays st st''"
  unfolding stays_def
proof (intro conjI allI impI)
  show "map fst (ps_nodes st'') = map fst (ps_nodes st)"
    using a b by (simp add: stays_def)
next
  fix k assume k: "traversalState st k \<noteq> None"
  with a have 1: "traversalState st' k = traversalState st k"
    "map_of (ps_nodes st') k = map_of (ps_nodes st) k" by (simp_all add: stays_def)
  with k have "traversalState st' k \<noteq> None" by simp
  with b have 2: "traversalState st'' k = traversalState st' k"
    "map_of (ps_nodes st'') k = map_of (ps_nodes st') k" by (simp_all add: stays_def)
  from 1 2 show "traversalState st'' k = traversalState st k" by simp
  from 1 2 show "map_of (ps_nodes st'') k = map_of (ps_nodes st) k" by simp
next
  fix k assume k: "traversalState st k = None"
  with a have "traversalState st' k = None \<or> traversalState st' k = Some Done"
    by (simp add: stays_def)
  then show "traversalState st'' k = None \<or> traversalState st'' k = Some Done"
  proof
    assume "traversalState st' k = None"
    with b show ?thesis by (simp add: stays_def)
  next
    assume d: "traversalState st' k = Some Done"
    then have "traversalState st' k \<noteq> None" by simp
    with b have "traversalState st'' k = traversalState st' k" by (simp add: stays_def)
    with d show ?thesis by simp
  qed
next
  fix k info assume "map_of (ps_nodes st) k = Some info"
  with a obtain info' where i': "map_of (ps_nodes st') k = Some info'" "block info' = block info"
    unfolding stays_def by blast
  with b obtain info'' where "map_of (ps_nodes st'') k = Some info''" "block info'' = block info'"
    unfolding stays_def by blast
  with i' show "\<exists>info'. map_of (ps_nodes st'') k = Some info' \<and> block info' = block info"
    by simp
qed

text \<open>\<open>neighborsClosed\<close>: every neighbour of a block that is done is a block of the table.\<close>

definition neighborsClosed :: "(BlockId \<times> BlockId list) list \<Rightarrow> Direction \<Rightarrow> PState \<Rightarrow> bool" where
  "neighborsClosed bs dir st \<longleftrightarrow>
     (\<forall>k info. traversalState st k = Some Done \<longrightarrow> map_of (ps_nodes st) k = Some info \<longrightarrow>
        set (neighborsOf bs dir k info) \<subseteq> fst ` set (ps_nodes st))"

lemma map_of_in_keys: "map_of al k = Some v \<Longrightarrow> k \<in> fst ` set al"
  by (metis domI dom_map_of_conv_image_fst)

lemma keys_map_of: "k \<in> fst ` set al \<Longrightarrow> map_of al k \<noteq> None"
  by (metis domIff dom_map_of_conv_image_fst)

lemma set_map_entry:
  "(k', v') \<in> set (AList.map_entry k f al) \<Longrightarrow>
     (k', v') \<in> set al \<or> (k' = k \<and> (\<exists>v. (k, v) \<in> set al \<and> v' = f v))"
  by (induction al) (auto split: if_splits)

lemma mergeVisited_total:
  assumes inv: "pstateInv st" and closed: "neighborsClosed bs dir st"
    and info: "map_of (ps_nodes st) nodeId = Some info"
    and ns: "\<forall>p \<in> set (neighborsOf bs dir nodeId info). traversalState st p \<noteq> None"
  shows "\<exists>c st'. mergeVisited nodeId (neighborsOf bs dir nodeId info) changed st = Some (Inr (c, st')) \<and>
           pstateInv st' \<and> neighborsClosed bs dir st' \<and>
           traversalState st' = (traversalState st)(nodeId \<mapsto> Done) \<and>
           map fst (ps_nodes st') = map fst (ps_nodes st) \<and>
           (\<forall>k. k \<noteq> nodeId \<longrightarrow> map_of (ps_nodes st') k = map_of (ps_nodes st) k) \<and>
           (\<exists>info'. map_of (ps_nodes st') nodeId = Some info' \<and> block info' = block info)"
proof -
  let ?ns = "neighborsOf bs dir nodeId info"
  let ?done = "filter (\<lambda>n. traversalState st n = Some Done) ?ns"
  let ?merged = "Set_union (assumedNonNullObjects info) (Set_intersect (map (factsOf st) ?done))"
  have wf: "wf_tree (ps_tree st)" using inv by (simp add: pstateInv_def)
  have facts: "validRefs (ps_tree st) (assumedNonNullObjects i) \<and> distinct (assumedNonNullObjects i)"
    if "(k, i) \<in> set (ps_nodes st)" for k i
    using inv that by (auto simp: pstateInv_def)
  have factsOf_valid: "validRefs (ps_tree st) (factsOf st k)" for k
  proof (cases "map_of (ps_nodes st) k")
    case None
    then show ?thesis by (simp add: factsOf_def validRefs_def)
  next
    case (Some i)
    then have "(k, i) \<in> set (ps_nodes st)" by (rule map_of_SomeD)
    with facts Some show ?thesis by (simp add: factsOf_def)
  qed
  have infoIn: "(nodeId, info) \<in> set (ps_nodes st)" using info by (rule map_of_SomeD)
  have present: "\<forall>n \<in> set ?done. map_of (ps_nodes st) n \<noteq> None"
  proof
    fix n assume "n \<in> set ?done"
    then have "traversalState st n \<noteq> None" by simp
    with inv have "n \<in> fst ` set (ps_nodes st)" by (simp add: pstateInv_def)
    then show "map_of (ps_nodes st) n \<noteq> None" by (rule keys_map_of)
  qed
  have a: "assertAll (map (\<lambda>n. map_sum id assumedNonNullObjects (assertNonNull (map_of (ps_nodes st) n))) ?done)
             = Inr (map (factsOf st) ?done)"
    by (rule assertAll_present[OF present])
  have mv: "validRefs (ps_tree st) ?merged"
  proof -
    have "set (Set_intersect (map (factsOf st) ?done)) \<subseteq> {x. x < length (heap (ps_tree st))}"
    proof (cases ?done)
      case Nil
      then show ?thesis by (simp add: Set_intersect_def)
    next
      case (Cons d ds)
      then have "set (Set_intersect (map (factsOf st) ?done)) \<subseteq> set (factsOf st d)"
        by (auto simp: Set_intersect_def)
      with factsOf_valid[of d] show ?thesis by (auto simp: validRefs_def)
    qed
    with facts[OF infoIn] show ?thesis by (auto simp: validRefs_def set_Set_union)
  qed
  have md: "distinct ?merged" using facts[OF infoIn] by (simp add: distinct_Set_union)
  obtain merged' tree' where
    r: "reduceMaybeOptionalChains ?merged (ps_tree st) = Some (merged', tree')"
      "wf_tree tree'" "extends (ps_tree st) tree'" "validRefs tree' merged'" "distinct merged'"
    using reduce_total[OF wf mv md] by blast
  let ?st' = "st\<lparr>ps_nodes := AList.map_entry nodeId (\<lambda>i. i\<lparr>assumedNonNullObjects := merged'\<rparr>)
                              (ps_nodes st),
                 ps_tree := tree',
                 traversalState := (traversalState st)(nodeId \<mapsto> Done)\<rparr>"
  have res: "mergeVisited nodeId ?ns changed st
               = Some (Inr (changed \<or> \<not> Set_equal (assumedNonNullObjects info) merged', ?st'))"
    using a info r(1) by (simp add: mergeVisited_def assertNonNull_def Let_def)
  have keys: "map fst (ps_nodes ?st') = map fst (ps_nodes st)" by (simp add: map_fst_map_entry)
  have keyset: "fst ` set (ps_nodes ?st') = fst ` set (ps_nodes st)"
    using keys by (metis set_map)
  have other: "\<forall>k. k \<noteq> nodeId \<longrightarrow> map_of (ps_nodes ?st') k = map_of (ps_nodes st) k"
    by (simp add: map_of_map_entry)
  have self: "map_of (ps_nodes ?st') nodeId = Some (info\<lparr>assumedNonNullObjects := merged'\<rparr>)"
    using info by (simp add: map_of_map_entry)
  have inv': "pstateInv ?st'"
    unfolding pstateInv_def
  proof (intro conjI)
    show "wf_tree (ps_tree ?st')" using r(2) by simp
    show "\<forall>(k, i) \<in> set (ps_nodes ?st').
        validRefs (ps_tree ?st') (assumedNonNullObjects i) \<and> distinct (assumedNonNullObjects i)"
    proof (clarify)
      fix k i assume "(k, i) \<in> set (ps_nodes ?st')"
      then have "(k, i) \<in> set (ps_nodes st) \<or>
          (\<exists>v. (nodeId, v) \<in> set (ps_nodes st) \<and> i = v\<lparr>assumedNonNullObjects := merged'\<rparr>)"
        using set_map_entry[of k i nodeId _ "ps_nodes st"] by auto
      then show "validRefs (ps_tree ?st') (assumedNonNullObjects i) \<and> distinct (assumedNonNullObjects i)"
      proof
        assume "(k, i) \<in> set (ps_nodes st)"
        with facts[of k i] r(3) show ?thesis by (simp add: validRefs_extends)
      next
        assume "\<exists>v. (nodeId, v) \<in> set (ps_nodes st) \<and> i = v\<lparr>assumedNonNullObjects := merged'\<rparr>"
        with r(4,5) show ?thesis by auto
      qed
    qed
    show "\<forall>k. traversalState ?st' k \<noteq> None \<longrightarrow> k \<in> fst ` set (ps_nodes ?st')"
      using inv map_of_in_keys[OF info] unfolding keyset by (auto simp: pstateInv_def)
  qed
  have closed': "neighborsClosed bs dir ?st'"
    unfolding neighborsClosed_def keyset
  proof (intro allI impI)
    fix k i assume d: "traversalState ?st' k = Some Done" and m: "map_of (ps_nodes ?st') k = Some i"
    show "set (neighborsOf bs dir k i) \<subseteq> fst ` set (ps_nodes st)"
    proof (cases "k = nodeId")
      case True
      with m self have "neighborsOf bs dir k i = ?ns" by (auto simp: neighborsOf_def)
      with ns inv show ?thesis by (auto simp: pstateInv_def)
    next
      case False
      with d m other closed show ?thesis by (auto simp: neighborsClosed_def)
    qed
  qed
  from res inv' closed' keys other self show ?thesis by auto
qed


text \<open>What a visit, or the loop over the neighbours, does from a well-formed state: it
  returns, and it either throws the "Bad node" error or leaves a well-formed state in
  which the blocks \<open>ns\<close> have a traversal state.\<close>

definition visitPost ::
    "(BlockId \<times> BlockId list) list \<Rightarrow> Direction \<Rightarrow> PState \<Rightarrow> BlockId list
       \<Rightarrow> (CompilerError + bool \<times> PState) option \<Rightarrow> bool" where
  "visitPost bs dir st ns res =
     (case res of
        None \<Rightarrow> False
      | Some (Inl e) \<Rightarrow>
          (\<exists>m. e = Invariant (BadNode m dir) GeneratedSource \<and> m \<notin> fst ` set (ps_nodes st))
      | Some (Inr (c, st')) \<Rightarrow>
          pstateInv st' \<and> neighborsClosed bs dir st' \<and> stays st st' \<and>
          (\<forall>p \<in> set ns. traversalState st' p \<noteq> None))"

lemma visitPostE:
  assumes "visitPost bs dir st ns res"
  obtains (bad) m where "res = Some (Inl (Invariant (BadNode m dir) GeneratedSource))"
        "m \<notin> fst ` set (ps_nodes st)"
    | (ok) c st' where "res = Some (Inr (c, st'))" "pstateInv st'" "neighborsClosed bs dir st'"
        "stays st st'" "\<forall>p \<in> set ns. traversalState st' p \<noteq> None"
  using assms unfolding visitPost_def
  by (auto split: option.splits sum.splits prod.splits)

lemma visitPost_bad:
  "m \<notin> fst ` set (ps_nodes st) \<Longrightarrow>
     visitPost bs dir st ns (Some (Inl (Invariant (BadNode m dir) GeneratedSource)))"
  by (simp add: visitPost_def)

lemma stays_keys: "stays st st' \<Longrightarrow> fst ` set (ps_nodes st') = fst ` set (ps_nodes st)"
  unfolding stays_def by (metis set_map)

lemma visitPost_ok:
  "pstateInv st' \<Longrightarrow> neighborsClosed bs dir st' \<Longrightarrow> stays st st' \<Longrightarrow>
     \<forall>p \<in> set ns. traversalState st' p \<noteq> None \<Longrightarrow>
     visitPost bs dir st ns (Some (Inr (c, st')))"
  by (simp add: visitPost_def)

lemma activate_inv:
  assumes inv: "pstateInv st" and closed: "neighborsClosed bs dir st"
    and info: "map_of (ps_nodes st) nodeId = Some info" and un: "traversalState st nodeId = None"
  shows "pstateInv (st\<lparr>traversalState := (traversalState st)(nodeId \<mapsto> Active)\<rparr>)"
    and "neighborsClosed bs dir (st\<lparr>traversalState := (traversalState st)(nodeId \<mapsto> Active)\<rparr>)"
proof -
  show "pstateInv (st\<lparr>traversalState := (traversalState st)(nodeId \<mapsto> Active)\<rparr>)"
    using inv map_of_in_keys[OF info] by (auto simp: pstateInv_def)
  show "neighborsClosed bs dir (st\<lparr>traversalState := (traversalState st)(nodeId \<mapsto> Active)\<rparr>)"
    using closed by (auto simp: neighborsClosed_def split: if_splits)
qed

lemma propagate_total:
  "pstateInv st \<Longrightarrow> neighborsClosed bs dir st \<Longrightarrow>
     visitPost bs dir st [nodeId] (recursivelyPropagateNonNull bs dir nodeId st)"
  "pstateInv st \<Longrightarrow> neighborsClosed bs dir st \<Longrightarrow>
     visitPost bs dir st ns (propagateNeighbors bs dir ns ch st)"
proof (induction bs dir nodeId st and bs dir ns ch st
    rule: recursivelyPropagateNonNull_propagateNeighbors.induct)
  case (1 bs dir nodeId st)
  show ?case
  proof (cases "traversalState st nodeId \<noteq> None")
    case True
    then have "recursivelyPropagateNonNull bs dir nodeId st = Some (Inr (False, st))"
      by (subst recursivelyPropagateNonNull.simps) simp
    with True "1.prems" show ?thesis by (simp add: visitPost_ok stays_refl)
  next
    case False
    then have un: "traversalState st nodeId = None" by simp
    show ?thesis
    proof (cases "map_of (ps_nodes st) nodeId")
      case None
      with un have "recursivelyPropagateNonNull bs dir nodeId st
                      = Some (Inl (Invariant (BadNode nodeId dir) GeneratedSource))"
        by (subst recursivelyPropagateNonNull.simps) simp
      moreover have "nodeId \<notin> fst ` set (ps_nodes st)"
        using None keys_map_of by fastforce
      ultimately show ?thesis by (simp add: visitPost_bad)
    next
      case (Some info)
      let ?st1 = "st\<lparr>traversalState := (traversalState st)(nodeId \<mapsto> Active)\<rparr>"
      let ?ns = "neighborsOf bs dir nodeId info"
      note A = activate_inv[OF "1.prems" Some un]
      have eq: "recursivelyPropagateNonNull bs dir nodeId st =
                  (case propagateNeighbors bs dir ?ns False ?st1 of
                     None \<Rightarrow> None
                   | Some (Inl e) \<Rightarrow> Some (Inl e)
                   | Some (Inr (changed, st')) \<Rightarrow> mergeVisited nodeId ?ns changed st')"
        using un Some by (subst recursivelyPropagateNonNull.simps) simp
      from "1.IH"[OF False Some A]
      show ?thesis
      proof (cases rule: visitPostE)
        case (bad m)
        then show ?thesis unfolding eq by (simp add: visitPost_bad)
      next
        case (ok c st2)
        have act: "traversalState ?st1 nodeId \<noteq> None" by simp
        from ok(4) act have s2: "traversalState st2 nodeId = Some Active"
          "map_of (ps_nodes st2) nodeId = Some info"
          using Some unfolding stays_def by (metis PState.select_convs(1,2) PState.surjective
              PState.update_convs(1) fun_upd_same)+
        obtain c' st' where
          M: "mergeVisited nodeId ?ns c st2 = Some (Inr (c', st'))" "pstateInv st'"
             "neighborsClosed bs dir st'" "traversalState st' = (traversalState st2)(nodeId \<mapsto> Done)"
             "map fst (ps_nodes st') = map fst (ps_nodes st2)"
             "\<forall>k. k \<noteq> nodeId \<longrightarrow> map_of (ps_nodes st') k = map_of (ps_nodes st2) k"
             "\<exists>info'. map_of (ps_nodes st') nodeId = Some info' \<and> block info' = block info"
          using mergeVisited_total[OF ok(2,3) s2(2) ok(5), of c] by blast
        have st: "stays st st'"
          unfolding stays_def
        proof (intro conjI allI impI)
          show "map fst (ps_nodes st') = map fst (ps_nodes st)"
            using M(5) ok(4) by (simp add: stays_def)
        next
          fix k assume k: "traversalState st k \<noteq> None"
          with un have ne: "k \<noteq> nodeId" by auto
          with k have "traversalState ?st1 k \<noteq> None" by simp
          with ok(4) have "traversalState st2 k = traversalState ?st1 k"
            "map_of (ps_nodes st2) k = map_of (ps_nodes ?st1) k"
            unfolding stays_def by blast+
          with ne M(4,6) show "traversalState st' k = traversalState st k"
            "map_of (ps_nodes st') k = map_of (ps_nodes st) k" by simp_all
        next
          fix k assume k: "traversalState st k = None"
          show "traversalState st' k = None \<or> traversalState st' k = Some Done"
          proof (cases "k = nodeId")
            case True
            with M(4) show ?thesis by simp
          next
            case False
            with k have "traversalState ?st1 k = None" by simp
            with ok(4) have "traversalState st2 k = None \<or> traversalState st2 k = Some Done"
              unfolding stays_def by blast
            with False M(4) show ?thesis by simp
          qed
        next
          fix k i assume "map_of (ps_nodes st) k = Some i"
          then have "map_of (ps_nodes ?st1) k = Some i" by simp
          with ok(4) obtain i2 where i2: "map_of (ps_nodes st2) k = Some i2" "block i2 = block i"
            unfolding stays_def by blast
          show "\<exists>info'. map_of (ps_nodes st') k = Some info' \<and> block info' = block i"
          proof (cases "k = nodeId")
            case True
            with i2 s2(2) M(7) show ?thesis by auto
          next
            case False
            with i2 M(6) show ?thesis by simp
          qed
        qed
        have "traversalState st' nodeId \<noteq> None" using M(4) by simp
        with M(1,2,3) st ok(1) show ?thesis unfolding eq by (simp add: visitPost_ok)
      qed
    qed
  qed
next
  case (2 bs dir ch st)
  then show ?case by (simp add: visitPost_ok stays_refl)
next
  case (3 bs dir pred rest ch st)
  show ?case
  proof (cases "traversalState st pred = None")
    case True
    from "3.IH"(1)[OF True "3.prems"]
    show ?thesis
    proof (cases rule: visitPostE)
      case (bad m)
      with True show ?thesis by (simp add: visitPost_bad)
    next
      case (ok nc st1)
      from "3.IH"(2)[OF True ok(1) refl refl ok(2,3)]
      show ?thesis
      proof (cases rule: visitPostE)
        case (bad m)
        with True ok(1) stays_keys[OF ok(4)] show ?thesis by (simp add: visitPost_bad)
      next
        case ok2: (ok c st')
        have "traversalState st1 pred \<noteq> None" using ok(5) by simp
        with ok2(4) have "traversalState st' pred \<noteq> None" unfolding stays_def by metis
        with ok2 True ok(1) stays_trans[OF ok(4) ok2(4)] show ?thesis
          by (simp add: visitPost_ok)
      qed
    qed
  next
    case False
    then have eq: "propagateNeighbors bs dir (pred # rest) ch st
                     = propagateNeighbors bs dir rest ch st" by auto
    from "3.IH"(3)[OF False "3.prems"]
    show ?thesis
    proof (cases rule: visitPostE)
      case (bad m)
      then show ?thesis unfolding eq by (simp add: visitPost_bad)
    next
      case (ok c st')
      from ok(4) False have "traversalState st' pred \<noteq> None" unfolding stays_def by metis
      with ok show ?thesis unfolding eq by (simp add: visitPost_ok)
    qed
  qed
qed


lemma sweep_total:
  "pstateInv st \<Longrightarrow> neighborsClosed bs dir st \<Longrightarrow>
     visitPost bs dir st ids (sweep bs dir ids ch st)"
proof (induction ids arbitrary: ch st)
  case Nil
  then show ?case by (simp add: visitPost_ok stays_refl)
next
  case (Cons b ids)
  from propagate_total(1)[OF Cons.prems, of b]
  show ?case
  proof (cases rule: visitPostE)
    case (bad m)
    then show ?thesis by (simp add: visitPost_bad)
  next
    case (ok c st1)
    from Cons.IH[OF ok(2,3), of "ch \<or> c"]
    show ?thesis
    proof (cases rule: visitPostE)
      case (bad m)
      with ok(1) stays_keys[OF ok(4)] show ?thesis by (simp add: visitPost_bad)
    next
      case ok2: (ok c' st')
      have "traversalState st1 b \<noteq> None" using ok(5) by simp
      with ok2(4) have "traversalState st' b \<noteq> None" unfolding stays_def by metis
      with ok2 ok(1) stays_trans[OF ok(4) ok2(4)] show ?thesis by (simp add: visitPost_ok)
    qed
  qed
qed


text \<open>\<open>referencedPresent\<close>: every block id that propagation refers to (the ids it sweeps
  over and the predecessors of their blocks) has an entry in the fact table.\<close>

definition referencedPresent :: "BlockId list \<Rightarrow> (BlockId \<times> BlockInfo) list \<Rightarrow> bool" where
  "referencedPresent ids nodes \<longleftrightarrow>
     (\<forall>b \<in> set ids. b \<in> fst ` set nodes \<and>
        (\<forall>info. map_of nodes b = Some info \<longrightarrow> set (preds (block info)) \<subseteq> fst ` set nodes))"

definition sameTable :: "PState \<Rightarrow> PState \<Rightarrow> bool" where
  "sameTable st st' \<longleftrightarrow>
     map fst (ps_nodes st') = map fst (ps_nodes st) \<and>
     (\<forall>k info. map_of (ps_nodes st) k = Some info \<longrightarrow>
        (\<exists>info'. map_of (ps_nodes st') k = Some info' \<and> block info' = block info))"

lemma sameTable_refl: "sameTable st st"
  by (simp add: sameTable_def)

lemma sameTable_trans:
  assumes a: "sameTable st st'" and b: "sameTable st' st''"
  shows "sameTable st st''"
  unfolding sameTable_def
proof (intro conjI allI impI)
  show "map fst (ps_nodes st'') = map fst (ps_nodes st)"
    using a b by (simp add: sameTable_def)
next
  fix k info assume "map_of (ps_nodes st) k = Some info"
  with a obtain info' where i': "map_of (ps_nodes st') k = Some info'" "block info' = block info"
    unfolding sameTable_def by blast
  with b obtain info'' where "map_of (ps_nodes st'') k = Some info''" "block info'' = block info'"
    unfolding sameTable_def by blast
  with i' show "\<exists>info'. map_of (ps_nodes st'') k = Some info' \<and> block info' = block info"
    by simp
qed

lemma stays_sameTable: "stays st st' \<Longrightarrow> sameTable st st'"
  by (simp add: stays_def sameTable_def)

lemma sameTable_keys: "sameTable st st' \<Longrightarrow> fst ` set (ps_nodes st') = fst ` set (ps_nodes st)"
  unfolding sameTable_def by (metis set_map)

lemma clear_inv:
  assumes "pstateInv st"
  shows "pstateInv (st\<lparr>traversalState := Map.empty\<rparr>)"
    and "neighborsClosed bs dir (st\<lparr>traversalState := Map.empty\<rparr>)"
    and "sameTable st (st\<lparr>traversalState := Map.empty\<rparr>)"
  using assms by (auto simp: pstateInv_def neighborsClosed_def sameTable_def)

definition iterPost ::
    "BlockId list \<Rightarrow> PState \<Rightarrow> (CompilerError + bool \<times> PState) option \<Rightarrow> bool" where
  "iterPost ids st res =
     (case res of
        None \<Rightarrow> False
      | Some (Inl e) \<Rightarrow>
          (\<exists>m d. e = Invariant (BadNode m d) GeneratedSource \<and> m \<notin> fst ` set (ps_nodes st))
      | Some (Inr (c, st')) \<Rightarrow>
          pstateInv st' \<and> traversalState st' = Map.empty \<and> sameTable st st' \<and>
          referencedPresent ids (ps_nodes st))"

lemma iteration_total:
  assumes inv: "pstateInv st" and empty: "traversalState st = Map.empty"
  shows "iterPost ids st (iteration bs ids st)"
proof -
  have closed: "neighborsClosed bs Forward st"
    using empty by (simp add: neighborsClosed_def)
  from sweep_total[OF inv closed, of ids False]
  show ?thesis
  proof (cases rule: visitPostE)
    case (bad m)
    then show ?thesis by (auto simp: iteration_def iterPost_def)
  next
    case (ok c st1)
    have keys1: "fst ` set (ps_nodes st1) = fst ` set (ps_nodes st)" by (rule stays_keys[OF ok(4)])
    have present: "referencedPresent ids (ps_nodes st)"
      unfolding referencedPresent_def
    proof (intro ballI conjI allI impI)
      fix b assume b: "b \<in> set ids"
      with ok(5) have s1: "traversalState st1 b \<noteq> None" by simp
      with ok(2) keys1 show "b \<in> fst ` set (ps_nodes st)" by (auto simp: pstateInv_def)
      fix info assume i: "map_of (ps_nodes st) b = Some info"
      with ok(4) obtain info1 where i1: "map_of (ps_nodes st1) b = Some info1"
          "block info1 = block info" unfolding stays_def by blast
      have "traversalState st b = None" using empty by simp
      moreover from ok(4) have "\<forall>k. traversalState st k = None \<longrightarrow>
          traversalState st1 k = None \<or> traversalState st1 k = Some Done"
        by (simp add: stays_def)
      ultimately have "traversalState st1 b = Some Done" using s1 by metis
      with ok(3) i1(1) have "set (neighborsOf bs Forward b info1) \<subseteq> fst ` set (ps_nodes st1)"
        unfolding neighborsClosed_def by blast
      with i1(2) keys1 show "set (preds (block info)) \<subseteq> fst ` set (ps_nodes st)"
        by (simp add: neighborsOf_def)
    qed
    note C = clear_inv[OF ok(2)]
    from sweep_total[OF C(1) C(2), of bs Backward "rev ids" c]
    show ?thesis
    proof (cases rule: visitPostE)
      case (bad m)
      with ok(1) keys1 show ?thesis by (auto simp: iteration_def iterPost_def)
    next
      case ok2: (ok c' st2)
      note C2 = clear_inv[OF ok2(2)]
      have "sameTable st (st2\<lparr>traversalState := Map.empty\<rparr>)"
        by (rule sameTable_trans[OF sameTable_trans[OF sameTable_trans[OF
              stays_sameTable[OF ok(4)] C(3)] stays_sameTable[OF ok2(4)]] C2(3)])
      with ok(1) ok2(1) C2(1) present show ?thesis by (simp add: iteration_def iterPost_def)
    qed
  qed
qed

lemma fixpointLoop_total:
  "pstateInv st \<Longrightarrow> traversalState st = Map.empty \<Longrightarrow>
     \<exists>r. fixpointLoop bs ids i st = Some r \<and>
       (\<forall>e. r = Inl e \<longrightarrow>
          (\<exists>m d. e = Invariant (BadNode m d) GeneratedSource \<and> m \<notin> fst ` set (ps_nodes st)) \<or>
          e = Invariant FixpointDidNotTerminate GeneratedSource)"
proof (induction bs ids i st rule: fixpointLoop.induct)
  case (1 bs ids i st)
  show ?case
  proof (cases "i < 100")
    case False
    then show ?thesis by (subst fixpointLoop.simps) simp
  next
    case True
    from iteration_total[OF "1.prems", of ids bs]
    show ?thesis
    proof (cases "iteration bs ids st")
      case None
      with \<open>iterPost ids st (iteration bs ids st)\<close> show ?thesis by (simp add: iterPost_def)
    next
      case (Some r)
      show ?thesis
      proof (cases r)
        case (Inl e)
        with Some True \<open>iterPost ids st (iteration bs ids st)\<close> show ?thesis
          by (subst fixpointLoop.simps) (auto simp: iterPost_def)
      next
        case (Inr p)
        obtain c st' where p: "p = (c, st')" by force
        with Inr Some \<open>iterPost ids st (iteration bs ids st)\<close> have
          P: "pstateInv st'" "traversalState st' = Map.empty" "sameTable st st'"
          by (simp_all add: iterPost_def)
        show ?thesis
        proof (cases c)
          case False
          with Some Inr p True show ?thesis by (subst fixpointLoop.simps) simp
        next
          case c: True
          have eq: "fixpointLoop bs ids i st = fixpointLoop bs ids (Suc i) st'"
            using Some Inr p True c by (subst fixpointLoop.simps) simp
          from "1.IH"[OF True Some Inr p[symmetric] _ P(1,2)] c sameTable_keys[OF P(3)]
          show ?thesis unfolding eq by simp
        qed
      qed
    qed
  qed
qed

lemma fixpointLoop_missing:
  assumes inv: "pstateInv st" and empty: "traversalState st = Map.empty"
    and missing: "\<not> referencedPresent ids (ps_nodes st)" and i: "i < 100"
  shows "\<exists>m d. fixpointLoop bs ids i st = Some (Inl (Invariant (BadNode m d) GeneratedSource)) \<and>
           m \<notin> fst ` set (ps_nodes st)"
proof -
  from iteration_total[OF inv empty, of ids bs] missing
  obtain m d where "iteration bs ids st = Some (Inl (Invariant (BadNode m d) GeneratedSource))"
      "m \<notin> fst ` set (ps_nodes st)"
    by (auto simp: iterPost_def split: option.splits sum.splits)
  with i show ?thesis by (subst fixpointLoop.simps) simp
qed


lemma start_inv:
  assumes "wf_tree tree"
    and "\<forall>(k, info) \<in> set nodes.
           validRefs tree (assumedNonNullObjects info) \<and> distinct (assumedNonNullObjects info)"
  shows "pstateInv \<lparr>traversalState = Map.empty, ps_nodes = nodes, ps_tree = tree\<rparr>"
  using assms by (simp add: pstateInv_def)

lemma propagateNonNull_total:
  assumes wf: "wf_tree tree"
    and facts: "\<forall>(k, info) \<in> set nodes.
           validRefs tree (assumedNonNullObjects info) \<and> distinct (assumedNonNullObjects info)"
  shows "\<not> referencedPresent (map fst blocks) nodes \<Longrightarrow>
            \<exists>m d. propagateNonNull blocks nodes tree
                      = Some (Inl (Invariant (BadNode m d) GeneratedSource)) \<and>
                    m \<notin> fst ` set nodes"
    and "\<exists>r. propagateNonNull blocks nodes tree = Some r \<and>
            (\<forall>e. r = Inl e \<longrightarrow>
               (\<exists>m d. e = Invariant (BadNode m d) GeneratedSource \<and> m \<notin> fst ` set nodes) \<or>
               e = Invariant FixpointDidNotTerminate GeneratedSource)"
proof -
  let ?st = "\<lparr>traversalState = Map.empty, ps_nodes = nodes, ps_tree = tree\<rparr>"
  { assume "\<not> referencedPresent (map fst blocks) nodes"
    then have "\<not> referencedPresent (map fst blocks) (ps_nodes ?st)" by simp
    from fixpointLoop_missing[OF start_inv[OF wf facts] _ this, of 0 "blockSuccessorsOf blocks"]
    show "\<exists>m d. propagateNonNull blocks nodes tree
                   = Some (Inl (Invariant (BadNode m d) GeneratedSource)) \<and>
                 m \<notin> fst ` set nodes"
      by (auto simp: propagateNonNull_def) }
  from fixpointLoop_total[OF start_inv[OF wf facts], of "blockSuccessorsOf blocks" "map fst blocks" 0]
  obtain r where r: "fixpointLoop (blockSuccessorsOf blocks) (map fst blocks) 0 ?st = Some r"
    "\<forall>e. r = Inl e \<longrightarrow>
       (\<exists>m d. e = Invariant (BadNode m d) GeneratedSource \<and> m \<notin> fst ` set nodes) \<or>
       e = Invariant FixpointDidNotTerminate GeneratedSource"
    by auto
  show "\<exists>r. propagateNonNull blocks nodes tree = Some r \<and>
            (\<forall>e. r = Inl e \<longrightarrow>
               (\<exists>m d. e = Invariant (BadNode m d) GeneratedSource \<and> m \<notin> fst ` set nodes) \<or>
               e = Invariant FixpointDidNotTerminate GeneratedSource)"
  proof (cases r)
    case (Inl e)
    with r show ?thesis by (auto simp: propagateNonNull_def)
  next
    case (Inr st')
    with r(1) show ?thesis by (simp add: propagateNonNull_def)
  qed
qed

text \<open>
  Claim C6. A visit of a block without an entry in the fact table throws the invariant
  error "Bad node". The propagation over the trie and the fact table that the extractor
  built for a function always returns or throws. When a block id it refers to (a block
  id of the function, or a predecessor of the block stored for one) has no entry in the
  table, it throws "Bad node" for an id without an entry. An error it throws is either
  "Bad node" for an id without an entry or the error of the iteration cap:
  \<open>assertNonNull\<close> never throws.
\<close>

theorem C6_missing_node:
  assumes "collectNonNullsInBlocks fn temporaries optionals emptyTree = (nodes, tree)"
  shows "(\<forall>bs dir (st :: PState) nodeId.
            traversalState st nodeId = None \<longrightarrow> map_of (ps_nodes st) nodeId = None \<longrightarrow>
              recursivelyPropagateNonNull bs dir nodeId st
                = Some (Inl (Invariant (BadNode nodeId dir) GeneratedSource))) \<and>
         (\<not> referencedPresent (map fst (body_blocks fn)) nodes \<longrightarrow>
            (\<exists>m d. propagateNonNull (body_blocks fn) nodes tree
                      = Some (Inl (Invariant (BadNode m d) GeneratedSource)) \<and>
                    m \<notin> fst ` set nodes)) \<and>
         (\<exists>r. propagateNonNull (body_blocks fn) nodes tree = Some r \<and>
            (\<forall>e. r = Inl e \<longrightarrow>
               (\<exists>m d. e = Invariant (BadNode m d) GeneratedSource \<and> m \<notin> fst ` set nodes) \<or>
               e = Invariant FixpointDidNotTerminate GeneratedSource))"
proof (intro conjI allI impI)
  fix bs dir and st :: PState and nodeId
  assume "traversalState st nodeId = None" "map_of (ps_nodes st) nodeId = None"
  then show "recursivelyPropagateNonNull bs dir nodeId st
                = Some (Inl (Invariant (BadNode nodeId dir) GeneratedSource))"
    by (subst recursivelyPropagateNonNull.simps) simp
next
  note I = collectNonNullsInBlocks_inv[OF assms]
  assume "\<not> referencedPresent (map fst (body_blocks fn)) nodes"
  with propagateNonNull_total(1)[of tree nodes "body_blocks fn"] I
  show "\<exists>m d. propagateNonNull (body_blocks fn) nodes tree
                 = Some (Inl (Invariant (BadNode m d) GeneratedSource)) \<and>
               m \<notin> fst ` set nodes"
    by blast
next
  note I = collectNonNullsInBlocks_inv[OF assms]
  with propagateNonNull_total(2)[of tree nodes "body_blocks fn"]
  show "\<exists>r. propagateNonNull (body_blocks fn) nodes tree = Some r \<and>
            (\<forall>e. r = Inl e \<longrightarrow>
               (\<exists>m d. e = Invariant (BadNode m d) GeneratedSource \<and> m \<notin> fst ` set nodes) \<or>
               e = Invariant FixpointDidNotTerminate GeneratedSource)"
    by blast
qed

lemma ex_missing_collect:
  "collectNonNullsInBlocks ex_fn_missing Map.empty Map.empty emptyTree
     = ([ex_info 0 [7] []], emptyTree)"
  by (simp add: collectNonNullsInBlocks_def knownNonNullIdentifiersOf_def collectBlock_def
      ex_fn_missing_def ex_info_def)

lemma ex_missing_propagate:
  "propagateNonNull (body_blocks ex_fn_missing) [ex_info 0 [7] []] emptyTree
   = Some (Inl (Invariant (BadNode 7 Forward) GeneratedSource))"
  by (simp add: propagateNonNull_def blockSuccessorsOf_def fixpointLoop.simps iteration_def
      recursivelyPropagateNonNull.simps neighborsOf_def ex_info_def Set_add_def
      ex_fn_missing_def)

theorem C6_missing_node_witness:
  "collectNonNullsInBlocks ex_fn_missing Map.empty Map.empty emptyTree
     = ([ex_info 0 [7] []], emptyTree) \<and>
   \<not> referencedPresent (map fst (body_blocks ex_fn_missing)) [ex_info 0 [7] []] \<and>
   propagateNonNull (body_blocks ex_fn_missing) [ex_info 0 [7] []] emptyTree
     = Some (Inl (Invariant (BadNode 7 Forward) GeneratedSource)) \<and>
   7 \<notin> fst ` set [ex_info 0 [7] []]"
proof -
  have m: "\<not> referencedPresent (map fst (body_blocks ex_fn_missing)) [ex_info 0 [7] []]"
    by (simp add: referencedPresent_def ex_info_def ex_fn_missing_def)
  from C6_missing_node[OF ex_missing_collect] m
  have "\<exists>m d. propagateNonNull (body_blocks ex_fn_missing) [ex_info 0 [7] []] emptyTree
                 = Some (Inl (Invariant (BadNode m d) GeneratedSource)) \<and>
               m \<notin> fst ` set [ex_info 0 [7] []]"
    by blast
  with ex_missing_collect ex_missing_propagate m show ?thesis by auto
qed


















end
